theory Spec2Isabelle
  imports Complex_Main
begin

section \<open>JavaScript string primitives used by the crawler and the server\<close>

text \<open>
  Strings are byte lists. The functions below model the \<^verbatim>\<open>String.prototype\<close> methods the
  sources call, on ASCII input: \<^verbatim>\<open>trim\<close>, \<^verbatim>\<open>startsWith\<close>, \<^verbatim>\<open>includes\<close>,
  \<^verbatim>\<open>toLowerCase\<close>, \<^verbatim>\<open>Array.prototype.join\<close> and the decimal rendering of an
  integer by \<^verbatim>\<open>String(n)\<close> or a template literal.
\<close>

definition is_space :: "char \<Rightarrow> bool" where
  "is_space c = (let n = (of_char c :: nat) in (9 \<le> n \<and> n \<le> 13) \<or> n = 32)"

definition trim :: "string \<Rightarrow> string" where
  "trim s = rev (dropWhile is_space (rev (dropWhile is_space s)))"

definition startsWith :: "string \<Rightarrow> string \<Rightarrow> bool" where
  "startsWith s p = (take (length p) s = p)"

fun str_includes :: "string \<Rightarrow> string \<Rightarrow> bool" where
  "str_includes [] p = (p = [])"
| "str_includes (c # cs) p = (startsWith (c # cs) p \<or> str_includes cs p)"

definition lower_char :: "char \<Rightarrow> char" where
  "lower_char c = (let n = (of_char c :: nat) in if 65 \<le> n \<and> n \<le> 90 then char_of (n + 32) else c)"

definition toLowerCase :: "string \<Rightarrow> string" where
  "toLowerCase s = map lower_char s"

definition is_digit :: "char \<Rightarrow> bool" where
  "is_digit c = (let n = (of_char c :: nat) in 48 \<le> n \<and> n \<le> 57)"

definition is_alnum :: "char \<Rightarrow> bool" where
  "is_alnum c = (let n = (of_char c :: nat) in
     (48 \<le> n \<and> n \<le> 57) \<or> (65 \<le> n \<and> n \<le> 90) \<or> (97 \<le> n \<and> n \<le> 122))"

definition digit_char :: "nat \<Rightarrow> char" where
  "digit_char d = char_of (48 + d)"

fun nat_to_dec :: "nat \<Rightarrow> string" where
  "nat_to_dec n = (if n < 10 then [digit_char n] else nat_to_dec (n div 10) @ [digit_char (n mod 10)])"

definition int_to_dec :: "int \<Rightarrow> string" where
  "int_to_dec i = (if i < 0 then CHR ''-'' # nat_to_dec (nat (- i)) else nat_to_dec (nat i))"

fun join :: "string \<Rightarrow> string list \<Rightarrow> string" where
  "join sep [] = []"
| "join sep [x] = x"
| "join sep (x # y # ys) = x @ sep @ join sep (y # ys)"

section \<open>Job runner (server.js)\<close>

subsection \<open>Request payload and job state\<close>

text \<open>
  The start request's JSON body, with the fields \<^verbatim>\<open>buildCrawlerArgs\<close> reads. A field that
  is \<^verbatim>\<open>undefined\<close> or \<^verbatim>\<open>null\<close> is \<open>None\<close>; numbers are integers, as the form sends them.
\<close>

record payload =
  p_mode :: "string option"
  p_url :: "string option"
  p_query :: "string option"
  p_depth :: "int option"
  p_minWidth :: "int option"
  p_quality :: "int option"
  p_cookie :: "string option"
  p_sameOrigin :: "bool option"
  p_maxImages :: "int option"
  p_maxScrolls :: "int option"
  p_headful :: "bool option"

definition empty_payload :: payload where
  "empty_payload = \<lparr>p_mode = None, p_url = None, p_query = None, p_depth = None,
     p_minWidth = None, p_quality = None, p_cookie = None, p_sameOrigin = None,
     p_maxImages = None, p_maxScrolls = None, p_headful = None\<rparr>"

text \<open>
  The process-wide \<^verbatim>\<open>state\<close> object. Times are milliseconds since the epoch (the source
  keeps them as ISO strings made by \<^verbatim>\<open>toISOString\<close> and reads them back with
  \<^verbatim>\<open>Date.parse\<close>); \<open>exitCode\<close> is \<open>None\<close> for \<^verbatim>\<open>null\<close>.
\<close>

record job_state =
  running :: bool
  pid :: "nat option"
  startedAt :: "int option"
  endedAt :: "int option"
  exitCode :: "int option"
  lastError :: "string option"
  command :: "string option"
  jpayload :: "payload option"

definition initial_state :: job_state where
  "initial_state = \<lparr>running = False, pid = None, startedAt = None, endedAt = None,
     exitCode = None, lastError = None, command = None, jpayload = None\<rparr>"

subsection \<open>Building the command line\<close>

text \<open>\<^verbatim>\<open>exists(value)\<close> on the \<^verbatim>\<open>String(value)\<close> rendering of a present field.\<close>

definition exists_str :: "string option \<Rightarrow> bool" where
  "exists_str v = (case v of None \<Rightarrow> False | Some s \<Rightarrow> trim s \<noteq> [])"

definition bool_to_str :: "bool \<Rightarrow> string" where
  "bool_to_str b = (if b then ''true'' else ''false'')"

definition addArg :: "string list \<Rightarrow> string \<Rightarrow> string option \<Rightarrow> string list" where
  "addArg args key v =
     (if \<not> exists_str v then args else args @ [''--'' @ key, the v])"

definition payload_mode :: "payload \<Rightarrow> string" where
  "payload_mode p = (case p_mode p of None \<Rightarrow> ''site'' | Some m \<Rightarrow> if m = [] then ''site'' else m)"

definition buildCrawlerArgs :: "payload \<Rightarrow> string list" where
  "buildCrawlerArgs p =
    (let args = [''src/crawler.js''];
         args = addArg args ''mode'' (Some (payload_mode p));
         args = addArg args ''url'' (p_url p);
         args = addArg args ''query'' (p_query p);
         args = addArg args ''depth'' (map_option int_to_dec (p_depth p));
         args = addArg args ''min-width'' (map_option int_to_dec (p_minWidth p));
         args = addArg args ''q'' (map_option int_to_dec (p_quality p));
         args = addArg args ''cookie'' (p_cookie p);
         args = addArg args ''same-origin'' (map_option bool_to_str (p_sameOrigin p));
         args = addArg args ''max-images'' (map_option int_to_dec (p_maxImages p));
         args = addArg args ''max-scrolls'' (map_option int_to_dec (p_maxScrolls p));
         args = addArg args ''headful'' (map_option bool_to_str (p_headful p))
     in args)"

subsection \<open>Launching the crawler and the child's events\<close>

text \<open>
  \<^verbatim>\<open>spawn\<close> either throws synchronously or returns a child object. When the executable cannot
  be launched the child object is still returned, with \<^verbatim>\<open>pid\<close> undefined, and the failure
  arrives later as the child's \<^verbatim>\<open>error\<close> event.
\<close>

datatype spawn_result = SpawnThrows string | Child "nat option"

definition startCrawler ::
  "string \<Rightarrow> (string list \<Rightarrow> spawn_result) \<Rightarrow> int \<Rightarrow> payload \<Rightarrow> job_state \<Rightarrow> string + job_state" where
  "startCrawler execPath spawn now p st =
    (let args = buildCrawlerArgs p in
     case spawn args of
       SpawnThrows e \<Rightarrow> Inl e
     | Child child_pid \<Rightarrow>
         Inr (st\<lparr>running := True, pid := child_pid, startedAt := Some now, endedAt := None,
                 exitCode := None, lastError := None,
                 command := Some (join '' '' (execPath # args)), jpayload := Some p\<rparr>))"

text \<open>The two listeners \<^verbatim>\<open>startCrawler\<close> registers on the child.\<close>

definition on_error :: "string \<Rightarrow> job_state \<Rightarrow> job_state" where
  "on_error msg st = st\<lparr>lastError := Some msg\<rparr>"

definition on_close :: "int option \<Rightarrow> int \<Rightarrow> job_state \<Rightarrow> job_state" where
  "on_close code now st = st\<lparr>running := False, pid := None, endedAt := Some now, exitCode := code\<rparr>"

subsection \<open>The start endpoint\<close>

datatype response =
    Json nat bool "string option" job_state
  | HandlerThrows string

text \<open>
  \<^verbatim>\<open>POST /api/crawl/start\<close>. \<^verbatim>\<open>ensureDataPaths\<close> creates the images directory and does not
  touch the job state; it is taken to succeed. The response carries the status code, the
  \<^verbatim>\<open>ok\<close> flag, the error text and a copy of the state.
\<close>

definition post_crawl_start ::
  "string \<Rightarrow> (string list \<Rightarrow> spawn_result) \<Rightarrow> int \<Rightarrow> payload \<Rightarrow> job_state \<Rightarrow> response \<times> job_state" where
  "post_crawl_start execPath spawn now req st =
    (if running st then (Json 409 False (Some ''Crawler gia in esecuzione'') st, st)
     else case startCrawler execPath spawn now req st of
            Inl e \<Rightarrow> (HandlerThrows e, st)
          | Inr st' \<Rightarrow> (Json 200 True None st', st'))"

text \<open>Everything that changes the job state: a start request or an event of the child.\<close>

datatype job_event =
    StartRequest payload spawn_result int
  | ChildError string
  | ChildClose "int option" int

fun job_step :: "string \<Rightarrow> job_event \<Rightarrow> job_state \<Rightarrow> job_state" where
  "job_step execPath (StartRequest req sp now) st = snd (post_crawl_start execPath (\<lambda>_. sp) now req st)"
| "job_step execPath (ChildError msg) st = on_error msg st"
| "job_step execPath (ChildClose code now) st = on_close code now st"

text \<open>A job state with a run in flight, used as a concrete input below.\<close>

definition busy_state :: job_state where
  "busy_state = \<lparr>running = True, pid = Some 4242, startedAt = Some 1000, endedAt = None,
     exitCode = None, lastError = None, command = Some ''node src/crawler.js --mode site'',
     jpayload = Some empty_payload\<rparr>"

section \<open>Deleting stored images (server.js)\<close>

subsection \<open>Node's POSIX path functions\<close>

text \<open>
  \<^verbatim>\<open>path.basename\<close>, \<^verbatim>\<open>path.normalize\<close> and \<^verbatim>\<open>path.join\<close> of Node's \<^verbatim>\<open>path.posix\<close>,
  written after their implementation: \<^verbatim>\<open>basename\<close> drops trailing slashes and returns what
  follows the last remaining slash; \<^verbatim>\<open>normalize\<close> resolves empty, \<^verbatim>\<open>.\<close> and \<^verbatim>\<open>..\<close>
  segments; \<^verbatim>\<open>join\<close> concatenates its non-empty arguments with a slash and normalizes.
\<close>

definition is_slash :: "char \<Rightarrow> bool" where
  "is_slash c = (c = CHR ''/'')"

definition basename :: "string \<Rightarrow> string" where
  "basename p = rev (takeWhile (\<lambda>c. \<not> is_slash c) (dropWhile is_slash (rev p)))"

fun split_on :: "char \<Rightarrow> string \<Rightarrow> string list" where
  "split_on sep [] = [[]]"
| "split_on sep (c # cs) =
     (if c = sep then [] # split_on sep cs
      else (case split_on sep cs of [] \<Rightarrow> [[c]] | seg # segs \<Rightarrow> (c # seg) # segs))"

definition normalize_step :: "bool \<Rightarrow> string list \<Rightarrow> string \<Rightarrow> string list" where
  "normalize_step allowAboveRoot stack seg =
     (if seg = [] \<or> seg = ''.'' then stack
      else if seg = ''..'' then
        (if stack \<noteq> [] \<and> last stack \<noteq> ''..'' then butlast stack
         else if allowAboveRoot then stack @ [''..'']
         else stack)
      else stack @ [seg])"

definition normalizeString :: "string \<Rightarrow> bool \<Rightarrow> string" where
  "normalizeString p allowAboveRoot =
     join ''/'' (foldl (normalize_step allowAboveRoot) [] (split_on CHR ''/'' p))"

definition path_normalize :: "string \<Rightarrow> string" where
  "path_normalize p =
     (if p = [] then ''.''
      else
        let isAbsolute = (hd p = CHR ''/'');
            trailingSeparator = (last p = CHR ''/'');
            q = normalizeString p (\<not> isAbsolute)
        in if q = [] then (if isAbsolute then ''/'' else if trailingSeparator then ''./'' else ''.'')
           else (if isAbsolute then ''/'' else []) @ q @ (if trailingSeparator then ''/'' else []))"

definition path_join :: "string list \<Rightarrow> string" where
  "path_join args =
     (let nonempty = filter (\<lambda>a. a \<noteq> []) args
      in if nonempty = [] then ''.'' else path_normalize (join ''/'' nonempty))"

subsection \<open>The images directory\<close>

text \<open>
  The files of the machine: the paths of its regular files and of its directories.
  \<^verbatim>\<open>fs.unlink\<close> removes a regular file, fails with \<^verbatim>\<open>ENOENT\<close> on a path that does not
  exist and with another error on a directory.
\<close>

record filesystem =
  files :: "string set"
  dirs :: "string set"

datatype unlink_error = ENOENT | OtherError string

definition fs_unlink :: "filesystem \<Rightarrow> string \<Rightarrow> unlink_error + filesystem" where
  "fs_unlink fs p =
     (if p \<in> files fs then Inr (fs\<lparr>files := files fs - {p}\<rparr>)
      else if p \<in> dirs fs then Inl (OtherError ''EISDIR: illegal operation on a directory, unlink'')
      else Inl ENOENT)"

record delete_result =
  ok :: bool
  name :: string
  error :: "string option"

subsection \<open>safeImageName and deleteImageByName\<close>

definition exists_raw :: "string \<Rightarrow> bool" where
  "exists_raw v = (trim v \<noteq> [])"

definition safeImageName :: "string \<Rightarrow> string option" where
  "safeImageName raw =
     (if \<not> exists_raw raw then None
      else
        let trimmed = trim raw;
            normalized = basename trimmed
        in if normalized = [] \<or> normalized = ''.'' \<or> normalized = ''..'' then None
           else if normalized \<noteq> trimmed then None
           else Some normalized)"

definition deleteImageByName :: "string \<Rightarrow> filesystem \<Rightarrow> string \<Rightarrow> delete_result \<times> filesystem" where
  "deleteImageByName images_dir fs rawName =
     (case safeImageName rawName of
        None \<Rightarrow> (\<lparr>ok = False, name = rawName, error = Some ''Nome file non valido''\<rparr>, fs)
      | Some n \<Rightarrow>
          (let fullPath = path_join [images_dir, n] in
           case fs_unlink fs fullPath of
             Inr fs' \<Rightarrow> (\<lparr>ok = True, name = n, error = None\<rparr>, fs')
           | Inl ENOENT \<Rightarrow> (\<lparr>ok = False, name = n, error = Some ''File non trovato''\<rparr>, fs)
           | Inl (OtherError msg) \<Rightarrow> (\<lparr>ok = False, name = n, error = Some msg\<rparr>, fs)))"

text \<open>
  A JavaScript \<^verbatim>\<open>Set\<close> keeps its elements in insertion order: adding an element that is
  present changes nothing, a new one goes last.
\<close>

definition set_add :: "'a list \<Rightarrow> 'a \<Rightarrow> 'a list" where
  "set_add s x = (if x \<in> set s then s else s @ [x])"

definition new_Set :: "'a list \<Rightarrow> 'a list" where
  "new_Set xs = foldl set_add [] xs"

text \<open>
  \<^verbatim>\<open>POST /api/images/delete-batch\<close>: the names are trimmed, the empty ones dropped, duplicates
  removed, and the rest deleted one after the other. The result is \<open>None\<close> for the two
  status-400 answers, which delete nothing.
\<close>

fun delete_all :: "string \<Rightarrow> filesystem \<Rightarrow> string list \<Rightarrow> delete_result list \<times> filesystem" where
  "delete_all images_dir fs [] = ([], fs)"
| "delete_all images_dir fs (n # ns) =
     (let (r, fs') = deleteImageByName images_dir fs n;
          (rs, fs'') = delete_all images_dir fs' ns
      in (r # rs, fs''))"

definition delete_batch :: "string \<Rightarrow> filesystem \<Rightarrow> string list \<Rightarrow> delete_result list option \<times> filesystem" where
  "delete_batch images_dir fs names =
     (if names = [] then (None, fs)
      else
        let unique = new_Set (filter (\<lambda>n. n \<noteq> []) (map trim names))
        in if unique = [] then (None, fs)
           else (let (results, fs') = delete_all images_dir fs unique in (Some results, fs')))"

text \<open>
  A file name proper: not empty, without a slash, and neither of the two dot entries.
  An absolute directory path in normal form is a slash before each of one or more such names.
\<close>

definition plain_name :: "string \<Rightarrow> bool" where
  "plain_name n = (n \<noteq> [] \<and> CHR ''/'' \<notin> set n \<and> n \<noteq> ''.'' \<and> n \<noteq> ''..'')"

definition abs_dir :: "string list \<Rightarrow> string" where
  "abs_dir segs = concat (map (\<lambda>s. CHR ''/'' # s) segs)"

text \<open>A path lies directly inside a directory when it is the directory, a slash and a file name proper.\<close>

definition directly_inside :: "string \<Rightarrow> string \<Rightarrow> bool" where
  "directly_inside d p =
     (take (length d + 1) p = d @ ''/'' \<and> plain_name (drop (length d + 1) p))"

text \<open>A small machine: one stored image, one file outside the images directory.\<close>

definition sample_fs :: filesystem where
  "sample_fs = \<lparr>files = {''/app/data/site/images/a.png'', ''/app/data/site/crawl-report.json''},
                 dirs = {''/app/data/site/images'', ''/app/data/site''}\<rparr>"

section \<open>Progress estimation (server.js)\<close>

subsection \<open>Reading the activity log\<close>

text \<open>
  \<^verbatim>\<open>readTail\<close>: the file's non-empty lines, the last \<open>maxLines\<close> of them; no lines when the
  file cannot be read (\<open>None\<close>). \<^verbatim>\<open>slice(-0)\<close> is the whole array.
\<close>

definition readTail :: "string option \<Rightarrow> nat \<Rightarrow> string list" where
  "readTail content maxLines =
     (case content of
        None \<Rightarrow> []
      | Some raw \<Rightarrow>
          let lines = filter (\<lambda>l. l \<noteq> []) (split_on CHR 0x0A raw)
          in if maxLines = 0 then lines else drop (length lines - maxLines) lines)"

record log_line =
  timestamp :: "int option"
  message :: string

definition is_line_terminator :: "char \<Rightarrow> bool" where
  "is_line_terminator c = (c = CHR 0x0A \<or> c = CHR 0x0D)"

text \<open>
  \<^verbatim>\<open>parseLogLine\<close> matches \<^verbatim>\<open>/^\[([^\]]+)\]\s+(.*)$/\<close>: an opening bracket, one or more
  characters other than the closing bracket, the closing bracket, one or more white-space
  characters, and the rest of the line, which the dot matches only if it holds no line
  terminator. \<^verbatim>\<open>Date.parse\<close> is the parameter \<open>date_parse\<close>, \<open>None\<close> for a result that is
  not finite.
\<close>

definition parseLogLine :: "(string \<Rightarrow> int option) \<Rightarrow> string \<Rightarrow> log_line" where
  "parseLogLine date_parse line =
     (case line of
        [] \<Rightarrow> \<lparr>timestamp = None, message = line\<rparr>
      | c # cs \<Rightarrow>
          let stamp = takeWhile (\<lambda>x. x \<noteq> CHR '']'') cs;
              after = dropWhile (\<lambda>x. x \<noteq> CHR '']'') cs;
              rest = tl after;
              msg = dropWhile is_space rest
          in if c = CHR ''['' \<and> stamp \<noteq> [] \<and> after \<noteq> [] \<and> takeWhile is_space rest \<noteq> []
                \<and> \<not> list_ex is_line_terminator msg
             then \<lparr>timestamp = date_parse stamp, message = msg\<rparr>
             else \<lparr>timestamp = None, message = line\<rparr>)"

subsection \<open>The two patterns searched in a message\<close>

definition dec_to_nat :: "string \<Rightarrow> nat" where
  "dec_to_nat ds = foldl (\<lambda>a c. 10 * a + (of_char c - 48)) 0 ds"

text \<open>An unanchored \<^verbatim>\<open>match\<close>: the leftmost position at which the pattern matches.\<close>

fun find_match :: "(string \<Rightarrow> 'a option) \<Rightarrow> string \<Rightarrow> 'a option" where
  "find_match m [] = m []"
| "find_match m (c # cs) = (case m (c # cs) of Some r \<Rightarrow> Some r | None \<Rightarrow> find_match m cs)"

text \<open>\<^verbatim>\<open>/PINTEREST collected_total=(\d+)/\<close> at the start of \<open>s\<close>.\<close>

definition total_at :: "string \<Rightarrow> nat option" where
  "total_at s =
     (let lit = ''PINTEREST collected_total='';
          ds = takeWhile is_digit (drop (length lit) s)
      in if startsWith s lit \<and> ds \<noteq> [] then Some (dec_to_nat ds) else None)"

text \<open>\<^verbatim>\<open>/PINTEREST scroll=\d+\s+collected=(\d+)/\<close> at the start of \<open>s\<close>.\<close>

definition scroll_at :: "string \<Rightarrow> nat option" where
  "scroll_at s =
     (let lit = ''PINTEREST scroll='';
          r1 = drop (length lit) s;
          r2 = dropWhile is_digit r1;
          r3 = dropWhile is_space r2;
          ds = takeWhile is_digit (drop (length ''collected='') r3)
      in if startsWith s lit \<and> takeWhile is_digit r1 \<noteq> [] \<and> takeWhile is_space r2 \<noteq> []
            \<and> startsWith r3 ''collected='' \<and> ds \<noteq> []
         then Some (dec_to_nat ds) else None)"

definition totalMatch :: "string \<Rightarrow> nat option" where
  "totalMatch msg = find_match total_at msg"

definition scrollMatch :: "string \<Rightarrow> nat option" where
  "scrollMatch msg = find_match scroll_at msg"

subsection \<open>buildProgress\<close>

record counters =
  c_saved :: nat
  c_skipped :: nat
  c_failed :: nat
  c_collected :: nat
  c_collectedTotal :: nat

definition zero_counters :: counters where
  "zero_counters = \<lparr>c_saved = 0, c_skipped = 0, c_failed = 0, c_collected = 0, c_collectedTotal = 0\<rparr>"

text \<open>
  A line is passed over when its timestamp is truthy (present and not zero) and more than
  a second older than the job's start.
\<close>

definition too_old :: "int \<Rightarrow> log_line \<Rightarrow> bool" where
  "too_old startedAtMs parsed =
     (case timestamp parsed of None \<Rightarrow> False | Some t \<Rightarrow> t \<noteq> 0 \<and> t < startedAtMs - 1000)"

text \<open>The body of the loop over the log lines.\<close>

definition progress_step :: "(string \<Rightarrow> int option) \<Rightarrow> int \<Rightarrow> counters \<Rightarrow> string \<Rightarrow> counters" where
  "progress_step date_parse startedAtMs c line =
     (let parsed = parseLogLine date_parse line in
      if too_old startedAtMs parsed then c
      else
        let m = message parsed;
            c1 = (if startsWith m ''IMG saved'' then c\<lparr>c_saved := c_saved c + 1\<rparr>
                  else if startsWith m ''IMG skipped_small'' then c\<lparr>c_skipped := c_skipped c + 1\<rparr>
                  else if startsWith m ''IMG failed_non_image_or_status'' \<or> startsWith m ''IMG error''
                       then c\<lparr>c_failed := c_failed c + 1\<rparr>
                  else c);
            c2 = (case scrollMatch m of
                    Some n \<Rightarrow> c1\<lparr>c_collected := max (c_collected c1) n\<rparr>
                  | None \<Rightarrow> c1);
            c3 = (case totalMatch m of
                    Some n \<Rightarrow> c2\<lparr>c_collectedTotal := max (c_collectedTotal c2) n\<rparr>
                  | None \<Rightarrow> c2)
        in c3)"

record progress =
  mode :: string
  processed :: nat
  saved :: nat
  skipped :: nat
  failed :: nat
  collected :: nat
  target :: "int option"
  percent :: "int option"
  elapsedSec :: "int option"
  etaSec :: "int option"

text \<open>
  \<^verbatim>\<open>buildProgress\<close>, given the clock, the content of the activity log and the job state.
  The source computes the quotients in double precision and rounds with \<^verbatim>\<open>Math.round\<close>;
  here they are rationals, rounded half up.
\<close>

definition buildProgress ::
  "(string \<Rightarrow> int option) \<Rightarrow> int \<Rightarrow> string option \<Rightarrow> job_state \<Rightarrow> progress option" where
  "buildProgress date_parse now content st =
     (case startedAt st of
        None \<Rightarrow> None
      | Some startedAtMs \<Rightarrow>
          let endedAtMs = endedAt st;
              nowMs = (case endedAtMs of None \<Rightarrow> now | Some e \<Rightarrow> if e = 0 then now else e);
              elapsed = max 0 (round (of_int (nowMs - startedAtMs) / 1000 :: rat));
              p = (case jpayload st of None \<Rightarrow> empty_payload | Some q \<Rightarrow> q);
              md = payload_mode p;
              logs = readTail content 4000;
              c = foldl (progress_step date_parse startedAtMs) zero_counters logs;
              done = c_saved c + c_skipped c + c_failed c;
              tgt = (if md = ''pinterest'' then
                       (let t = (case p_maxImages p of None \<Rightarrow> 0 | Some n \<Rightarrow> n)
                        in if c_collectedTotal c > 0 then int (c_collectedTotal c)
                           else if c_collected c > 0 then max t (int (c_collected c))
                           else t)
                     else 0);
              pct = (if tgt > 0 then Some (min 100 (round (of_nat done / of_int tgt * 100 :: rat)))
                     else None);
              eta1 = (if running st \<and> tgt > 0 \<and> done > 0 \<and> int done < tgt
                      then Some (round (of_int elapsed / of_nat done * of_int (tgt - int done) :: rat))
                      else None);
              eta = (if \<not> running st \<and> pct \<noteq> None then Some 0 else eta1)
          in Some \<lparr>mode = md, processed = done, saved = c_saved c, skipped = c_skipped c,
                   failed = c_failed c, collected = c_collected c,
                   target = (if tgt > 0 then Some tgt else None),
                   percent = pct, elapsedSec = Some elapsed, etaSec = eta\<rparr>)"

subsection \<open>What the loop counts\<close>

text \<open>
  The messages of the lines the loop does not pass over, in order, and the numbers the two
  patterns capture in them.
\<close>

definition counted_messages :: "(string \<Rightarrow> int option) \<Rightarrow> int \<Rightarrow> string list \<Rightarrow> string list" where
  "counted_messages date_parse startedAtMs logs =
     map message (filter (\<lambda>l. \<not> too_old startedAtMs l) (map (parseLogLine date_parse) logs))"

definition count_prefix :: "string \<Rightarrow> string list \<Rightarrow> nat" where
  "count_prefix pre msgs = length (filter (\<lambda>m. startsWith m pre) msgs)"

definition max_list :: "nat list \<Rightarrow> nat" where
  "max_list xs = foldl max 0 xs"

text \<open>
  The target as the specification words it: the declared maximum, overridden upward by
  the most recent collection total, when one has appeared.
\<close>

definition spec_target :: "int \<Rightarrow> nat list \<Rightarrow> int" where
  "spec_target declared totals = (if totals = [] then declared else max declared (int (last totals)))"

text \<open>Example inputs: a clock reading for two stamps, and three activity logs.\<close>

definition sample_date_parse :: "string \<Rightarrow> int option" where
  "sample_date_parse s =
     (if s = ''2026-01-01T00:00:10.000Z'' then Some 1767225610000
      else if s = ''2025-12-31T23:00:00.000Z'' then Some 1767222000000
      else None)"

definition pinterest_job :: "int \<Rightarrow> job_state" where
  "pinterest_job n = \<lparr>running = True, pid = Some 4242, startedAt = Some 1767225600000, endedAt = None,
     exitCode = None, lastError = None, command = Some ''node src/crawler.js --mode pinterest'',
     jpayload = Some (empty_payload\<lparr>p_mode := Some ''pinterest'', p_maxImages := Some n\<rparr>)\<rparr>"

definition site_job :: job_state where
  "site_job = \<lparr>running = True, pid = Some 4242, startedAt = Some 1767225600000, endedAt = None,
     exitCode = None, lastError = None, command = Some ''node src/crawler.js --mode site'',
     jpayload = Some (empty_payload\<lparr>p_mode := Some ''site'', p_url := Some ''https://example.com''\<rparr>)\<rparr>"


definition total_log :: string where
  "total_log = concat (map (\<lambda>l. l @ [CHR 0x0A])
     [''[2026-01-01T00:00:10.000Z] PINTEREST scroll=1 collected=5 adsSkipped=0'',
      ''[2026-01-01T00:00:10.000Z] PINTEREST collected_total=5'',
      ''[2026-01-01T00:00:10.000Z] IMG saved path=/a.jpg width=300''])"

definition is_failure_message :: "string \<Rightarrow> bool" where
  "is_failure_message m = (startsWith m ''IMG failed_non_image_or_status'' \<or> startsWith m ''IMG error'')"

text \<open>The declared maximum image count of the job: \<^verbatim>\<open>Number(payload.maxImages || 0)\<close>.\<close>

definition declared_max :: "job_state \<Rightarrow> int" where
  "declared_max st =
     (case jpayload st of
        None \<Rightarrow> 0
      | Some q \<Rightarrow> (case p_maxImages q of None \<Rightarrow> 0 | Some n \<Rightarrow> n))"

definition job_mode :: "job_state \<Rightarrow> string" where
  "job_mode st = payload_mode (case jpayload st of None \<Rightarrow> empty_payload | Some q \<Rightarrow> q)"

text \<open>The counters after the loop, and the target computed from them.\<close>

definition loop_counters :: "(string \<Rightarrow> int option) \<Rightarrow> int \<Rightarrow> string option \<Rightarrow> counters" where
  "loop_counters dp t0 content = foldl (progress_step dp t0) zero_counters (readTail content 4000)"

definition loop_target :: "job_state \<Rightarrow> counters \<Rightarrow> int" where
  "loop_target st c =
     (if job_mode st = ''pinterest'' then
        (if c_collectedTotal c > 0 then int (c_collectedTotal c)
         else if c_collected c > 0 then max (declared_max st) (int (c_collected c))
         else declared_max st)
      else 0)"

section \<open>External collaborators of the crawler (crawler.js, pinterest-driver.js)\<close>

subsection \<open>URL objects\<close>

text \<open>
  A WHATWG \<^verbatim>\<open>URL\<close> object with an authority, by its components; \<open>protocol\<close> ends with
  the colon, \<open>userinfo\<close> is empty or ends with the at sign, \<open>search\<close> and \<open>hash\<close> are empty
  or start with their delimiter. \<open>origin\<close> and \<open>href\<close> are the getters of the same names;
  assigning to \<^verbatim>\<open>hash\<close> or \<^verbatim>\<open>pathname\<close> is a record update.
\<close>

record url =
  protocol :: string
  userinfo :: string
  hostname :: string
  port :: string
  pathname :: string
  search :: string
  hash :: string

definition host :: "url \<Rightarrow> string" where
  "host u = hostname u @ (if port u = [] then [] else CHR '':'' # port u)"

definition origin :: "url \<Rightarrow> string" where
  "origin u =
     (if protocol u \<in> set [''http:'', ''https:'', ''ftp:'', ''ws:'', ''wss:'']
      then protocol u @ ''//'' @ host u
      else ''null'')"

definition href :: "url \<Rightarrow> string" where
  "href u = protocol u @ ''//'' @ userinfo u @ host u @ pathname u @ search u @ hash u"

subsection \<open>Responses, decoded sizes, parsed pages\<close>

record http_response =
  statusCode :: int
  content_type :: "string option"
  res_body :: string

text \<open>What \<^verbatim>\<open>image-size\<close> reports for a buffer; a field it leaves undefined is \<open>None\<close>.\<close>

record size_info =
  width :: "nat option"
  height :: "nat option"
  img_type :: "string option"

text \<open>
  A page as \<^verbatim>\<open>cheerio\<close> presents it to the two extractors: for each \<^verbatim>\<open>img\<close> element its
  \<^verbatim>\<open>src\<close>, \<^verbatim>\<open>data-src\<close> and \<^verbatim>\<open>data-original\<close> attributes, and for each element matching
  \<^verbatim>\<open>a[href]\<close> the value of its \<^verbatim>\<open>href\<close>.
\<close>

record img_element =
  src :: "string option"
  data_src :: "string option"
  data_original :: "string option"

record page =
  imgs :: "img_element list"
  anchors :: "string list"

text \<open>
  The collaborators the crawler calls and does not define: the URL parser (\<open>None\<close> where
  the constructor throws), the HTTP client (\<open>Inl\<close> the message of the error it throws), the
  HTML parser, the image header decoder, the image encoder, SHA-1 in hexadecimal, and the
  writing of a file (\<open>Some\<close> the message of the error it throws).
\<close>

record env =
  url_parse :: "string \<Rightarrow> url option"
  url_resolve :: "string \<Rightarrow> string \<Rightarrow> url option"
  client_get :: "string \<Rightarrow> string + http_response"
  cheerio_load :: "string \<Rightarrow> page"
  imageSize :: "string \<Rightarrow> string + size_info"
  sharp_encode :: "string \<Rightarrow> string \<Rightarrow> int \<Rightarrow> string + string"
  sha1_hex :: "string \<Rightarrow> string"
  write_error :: "string \<Rightarrow> string option"

section \<open>Image ingestion (crawler.js)\<close>

subsection \<open>Helpers of the ingestor\<close>

text \<open>\<^verbatim>\<open>normalizeQuality\<close>; the value is \<open>None\<close> when \<^verbatim>\<open>Number(value)\<close> is not finite.\<close>

definition normalizeQuality :: "int option \<Rightarrow> int \<Rightarrow> int" where
  "normalizeQuality v fallback = (case v of None \<Rightarrow> fallback | Some parsed \<Rightarrow> max 1 (min 100 parsed))"

definition sanitize_char :: "char \<Rightarrow> char" where
  "sanitize_char c = (if is_alnum c \<or> c = CHR ''.'' \<or> c = CHR ''_'' \<or> c = CHR ''-'' then c else CHR ''_'')"

definition sanitizeFilename :: "string \<Rightarrow> string" where
  "sanitizeFilename n = take 180 (map sanitize_char n)"

definition extensionFromContentType :: "string \<Rightarrow> string" where
  "extensionFromContentType contentType =
     (let clean = toLowerCase (trim (takeWhile (\<lambda>c. c \<noteq> CHR '';'') contentType))
      in case map_of
           [(''image/jpeg'', ''.jpg''), (''image/png'', ''.png''), (''image/webp'', ''.webp''),
            (''image/gif'', ''.gif''), (''image/svg+xml'', ''.svg''), (''image/bmp'', ''.bmp''),
            (''image/tiff'', ''.tiff''), (''image/avif'', ''.avif'')] clean of
           None \<Rightarrow> [] | Some e \<Rightarrow> e)"

definition extensionFromImageType :: "string option \<Rightarrow> string" where
  "extensionFromImageType t =
     (case map_of
        [(''jpg'', ''.jpg''), (''jpeg'', ''.jpg''), (''png'', ''.png''), (''webp'', ''.webp''),
         (''gif'', ''.gif''), (''svg'', ''.svg''), (''bmp'', ''.bmp''), (''tiff'', ''.tiff''),
         (''avif'', ''.avif'')] (toLowerCase (case t of None \<Rightarrow> [] | Some s \<Rightarrow> s)) of
        None \<Rightarrow> [] | Some e \<Rightarrow> e)"

text \<open>
  \<^verbatim>\<open>replace(/\.[a-zA-Z0-9]{2,6}$/i, '')\<close>: the text after the last dot is removed with the
  dot when it is two to six letters or digits.
\<close>

definition strip_extension :: "string \<Rightarrow> string" where
  "strip_extension s =
     (let r = rev s;
          suffix = takeWhile (\<lambda>c. c \<noteq> CHR ''.'') r;
          rest = dropWhile (\<lambda>c. c \<noteq> CHR ''.'') r
      in if rest \<noteq> [] \<and> 2 \<le> length suffix \<and> length suffix \<le> 6 \<and> list_all is_alnum suffix
         then rev (tl rest) else s)"

definition or_default :: "string \<Rightarrow> string \<Rightarrow> string" where
  "or_default s d = (if s = [] then d else s)"

definition size_tag :: "nat option \<Rightarrow> nat option \<Rightarrow> string" where
  "size_tag w h = nat_to_dec (case w of None \<Rightarrow> 0 | Some n \<Rightarrow> n) @ ''x''
                  @ nat_to_dec (case h of None \<Rightarrow> 0 | Some n \<Rightarrow> n)"

text \<open>\<^verbatim>\<open>filenameFromUrl\<close>; \<open>Inl\<close> when \<^verbatim>\<open>new URL(imageUrl)\<close> throws.\<close>

definition filenameFromUrl ::
  "env \<Rightarrow> string \<Rightarrow> string option \<Rightarrow> string \<Rightarrow> nat option \<Rightarrow> nat option \<Rightarrow> string + string" where
  "filenameFromUrl e imageUrl imageType contentType w h =
     (case url_parse e imageUrl of
        None \<Rightarrow> Inl ''Invalid URL''
      | Some parsed \<Rightarrow>
          let baseName = or_default (basename (pathname parsed)) ''image'';
              baseNoExt = or_default (strip_extension baseName) ''image'';
              safeBase = sanitizeFilename baseNoExt;
              ext = or_default (extensionFromImageType imageType)
                      (or_default (extensionFromContentType contentType) ''.img'');
              hash10 = take 10 (sha1_hex e imageUrl);
              sizeTag = size_tag w h
          in Inr (hash10 @ ''-'' @ sizeTag @ ''-'' @ safeBase @ ext))"

record image_data =
  contentType :: string
  buffer :: string

text \<open>\<^verbatim>\<open>fetchImage\<close>: \<open>Inl\<close> when the client throws, \<open>Inr None\<close> for the \<^verbatim>\<open>null\<close> result.\<close>

definition fetchImage :: "env \<Rightarrow> string \<Rightarrow> string + image_data option" where
  "fetchImage e imageUrl =
     (case client_get e imageUrl of
        Inl err \<Rightarrow> Inl err
      | Inr res \<Rightarrow>
          if statusCode res < 200 \<or> statusCode res \<ge> 400 then Inr None
          else
            let ct = toLowerCase (case content_type res of None \<Rightarrow> [] | Some s \<Rightarrow> s)
            in if \<not> startsWith ct ''image/'' then Inr None
               else Inr (Some \<lparr>contentType = ct, buffer = res_body res\<rparr>))"

text \<open>
  \<^verbatim>\<open>recompressImage\<close>: the new buffer and whether it was re-encoded; \<open>Inl\<close> when the
  encoder throws. The encoder is called with the output format and the quality.
\<close>

definition recompressImage :: "env \<Rightarrow> string \<Rightarrow> string option \<Rightarrow> int option \<Rightarrow> string + (string \<times> bool)" where
  "recompressImage e buf imageType quality =
     (let t = toLowerCase (case imageType of None \<Rightarrow> [] | Some s \<Rightarrow> s) in
      if t \<notin> set [''jpg'', ''jpeg'', ''png'', ''webp'', ''avif'', ''tiff''] then Inr (buf, False)
      else
        let q = normalizeQuality quality 75;
            fmt = (if t = ''jpg'' \<or> t = ''jpeg'' then ''jpeg'' else t)
        in case sharp_encode e buf fmt q of
             Inl err \<Rightarrow> Inl err
           | Inr out \<Rightarrow> Inr (out, True))"

subsection \<open>downloadImages\<close>

record stats =
  imagesFound :: nat
  imagesSaved :: nat
  imagesSkippedSmall :: nat
  imagesFailed :: nat
  imagesRecompressed :: nat
  bytesBefore :: nat
  bytesAfter :: nat

text \<open>
  The state of one call: the counters, the set \<^verbatim>\<open>downloadedImages\<close> in insertion order,
  and the effects so far: the locations requested from the client, the files written
  (path and bytes, in order), and the messages given to the logger. The logger stamps
  each message with the time and appends it to the activity log; that append is taken
  to succeed.
\<close>

record ingest_state =
  counts :: stats
  downloadedImages :: "string list"
  requests :: "string list"
  written :: "(string \<times> string) list"
  activity :: "string list"

definition append_log :: "string \<Rightarrow> ingest_state \<Rightarrow> ingest_state" where
  "append_log msg st = st\<lparr>activity := activity st @ [msg]\<rparr>"

definition count_failed :: "ingest_state \<Rightarrow> ingest_state" where
  "count_failed st = st\<lparr>counts := (counts st)\<lparr>imagesFailed := imagesFailed (counts st) + 1\<rparr>\<rparr>"

definition count_skipped :: "ingest_state \<Rightarrow> ingest_state" where
  "count_skipped st = st\<lparr>counts := (counts st)\<lparr>imagesSkippedSmall := imagesSkippedSmall (counts st) + 1\<rparr>\<rparr>"

definition count_saved :: "ingest_state \<Rightarrow> ingest_state" where
  "count_saved st = st\<lparr>counts := (counts st)\<lparr>imagesSaved := imagesSaved (counts st) + 1\<rparr>\<rparr>"

definition width_or_0 :: "size_info \<Rightarrow> nat" where
  "width_or_0 sz = (case width sz of None \<Rightarrow> 0 | Some w \<Rightarrow> w)"

text \<open>\<^verbatim>\<open>!size.width || size.width < minWidth\<close>\<close>

definition too_small :: "size_info \<Rightarrow> int \<Rightarrow> bool" where
  "too_small sz minWidth = (width_or_0 sz = 0 \<or> int (width_or_0 sz) < minWidth)"

text \<open>
  The body of the \<^verbatim>\<open>try\<close> block for one candidate, in two parts: \<open>save_image\<close> is the
  part after the size check (recompress, name, write, count), \<open>try_candidate\<close> the whole.
  The result is the state reached and, when a statement threw, the error's message; the
  counters changed before the throw stay changed.
\<close>

definition save_image ::
  "env \<Rightarrow> string \<Rightarrow> int option \<Rightarrow> ingest_state \<Rightarrow> string \<Rightarrow> image_data \<Rightarrow> size_info
     \<Rightarrow> string option \<times> ingest_state" where
  "save_image e outputDir quality st0 imageUrl imageData sz =
     (let st1 = st0\<lparr>counts := (counts st0)\<lparr>bytesBefore :=
                  bytesBefore (counts st0) + length (buffer imageData)\<rparr>\<rparr> in
      case recompressImage e (buffer imageData) (img_type sz) quality of
        Inl err \<Rightarrow> (Some err, st1)
      | Inr (outputBuffer, recompressed) \<Rightarrow>
          let st2 = st1\<lparr>counts := (counts st1)\<lparr>
                      bytesAfter := bytesAfter (counts st1) + length outputBuffer,
                      imagesRecompressed := imagesRecompressed (counts st1)
                        + (if recompressed then 1 else 0)\<rparr>\<rparr> in
          (case filenameFromUrl e imageUrl (img_type sz) (contentType imageData) (width sz) (height sz) of
             Inl err \<Rightarrow> (Some err, st2)
           | Inr filename \<Rightarrow>
               let filePath = path_join [outputDir, filename] in
               (case write_error e filePath of
                  Some err \<Rightarrow> (Some err, st2)
                | None \<Rightarrow>
                    (None,
                     append_log (''IMG saved path='' @ filePath
                          @ '' width='' @ nat_to_dec (width_or_0 sz)
                          @ '' height='' @ (case height sz of
                                             None \<Rightarrow> ''?''
                                           | Some h \<Rightarrow> if h = 0 then ''?'' else nat_to_dec h)
                          @ '' bytesBefore='' @ nat_to_dec (length (buffer imageData))
                          @ '' bytesAfter='' @ nat_to_dec (length outputBuffer)
                          @ '' recompressed='' @ bool_to_str recompressed)
                       (count_saved (st2\<lparr>written := written st2 @ [(filePath, outputBuffer)]\<rparr>))))))"

definition try_candidate ::
  "env \<Rightarrow> string \<Rightarrow> int \<Rightarrow> int option \<Rightarrow> ingest_state \<Rightarrow> string \<Rightarrow> string option \<times> ingest_state" where
  "try_candidate e outputDir minWidth quality st imageUrl =
     (let st0 = st\<lparr>requests := requests st @ [imageUrl]\<rparr> in
      case fetchImage e imageUrl of
        Inl err \<Rightarrow> (Some err, st0)
      | Inr None \<Rightarrow>
          (None, append_log (''IMG failed_non_image_or_status url='' @ imageUrl) (count_failed st0))
      | Inr (Some imageData) \<Rightarrow>
         (case imageSize e (buffer imageData) of
            Inl err \<Rightarrow> (Some err, st0)
          | Inr sz \<Rightarrow>
              if too_small sz minWidth then
                (None, append_log (''IMG skipped_small url='' @ imageUrl @ '' width='' @ nat_to_dec (width_or_0 sz)
                            @ '' minWidth='' @ int_to_dec minWidth) (count_skipped st0))
              else save_image e outputDir quality st0 imageUrl imageData sz))"

text \<open>One pass of the \<^verbatim>\<open>for\<close> loop: the duplicate check, the \<^verbatim>\<open>try\<close> block and its \<^verbatim>\<open>catch\<close>.\<close>

definition process_candidate ::
  "env \<Rightarrow> string \<Rightarrow> int \<Rightarrow> int option \<Rightarrow> ingest_state \<Rightarrow> string \<Rightarrow> ingest_state" where
  "process_candidate e outputDir minWidth quality st imageUrl =
     (if imageUrl \<in> set (downloadedImages st) then st
      else
        let st' = st\<lparr>downloadedImages := set_add (downloadedImages st) imageUrl\<rparr> in
        case try_candidate e outputDir minWidth quality st' imageUrl of
          (None, st'') \<Rightarrow> st''
        | (Some err, st'') \<Rightarrow>
            append_log (''IMG error url='' @ imageUrl @ '' err='' @ err) (count_failed st''))"

definition initial_ingest :: "nat \<Rightarrow> ingest_state" where
  "initial_ingest n =
     \<lparr>counts = \<lparr>imagesFound = n, imagesSaved = 0, imagesSkippedSmall = 0, imagesFailed = 0,
                imagesRecompressed = 0, bytesBefore = 0, bytesAfter = 0\<rparr>,
      downloadedImages = [], requests = [], written = [], activity = []\<rparr>"

definition downloadImages :: "env \<Rightarrow> string \<Rightarrow> int \<Rightarrow> int option \<Rightarrow> string list \<Rightarrow> ingest_state" where
  "downloadImages e outputDir minWidth quality imageUrls =
     foldl (process_candidate e outputDir minWidth quality) (initial_ingest (length imageUrls)) imageUrls"

text \<open>The number of candidates a state has counted under one of the three outcomes.\<close>

definition outcomes :: "ingest_state \<Rightarrow> nat" where
  "outcomes st = imagesSaved (counts st) + imagesSkippedSmall (counts st) + imagesFailed (counts st)"

text \<open>
  What one run of the \<^verbatim>\<open>try\<close> block leaves alone and what it counts, and the invariant
  of the loop over the candidates.
\<close>

definition framed :: "ingest_state \<Rightarrow> string option \<Rightarrow> ingest_state \<Rightarrow> bool" where
  "framed st r st' =
     (downloadedImages st' = downloadedImages st
      \<and> outcomes st' = outcomes st + (if r = None then 1 else 0))"


text \<open>The files a candidate adds when it is processed from the empty state.\<close>

definition new_files :: "env \<Rightarrow> string \<Rightarrow> int \<Rightarrow> int option \<Rightarrow> string \<Rightarrow> (string \<times> string) list" where
  "new_files e dir mw q u = written (snd (try_candidate e dir mw q (initial_ingest 0) u))"

subsection \<open>A sample environment\<close>

text \<open>
  Three image locations and one that does not answer; a decoder that knows two buffers;
  an encoder that prefixes its input; a constant in place of SHA-1; a disk that accepts
  every write. It serves as the concrete input of the statements below.
\<close>

definition photo_url :: string where
  "photo_url = ''https://img.example/a/photo.large.jpeg?v=2''"

definition icon_url :: string where
  "icon_url = ''https://img.example/icon.png''"

definition page_url :: string where
  "page_url = ''https://img.example/about''"

definition sample_env :: env where
  "sample_env =
     \<lparr>url_parse = (\<lambda>s.
        if s = photo_url then
          Some \<lparr>protocol = ''https:'', userinfo = [], hostname = ''img.example'', port = [],
                pathname = ''/a/photo.large.jpeg'', search = ''?v=2'', hash = []\<rparr>
        else if s = icon_url then
          Some \<lparr>protocol = ''https:'', userinfo = [], hostname = ''img.example'', port = [],
                pathname = ''/icon.png'', search = [], hash = []\<rparr>
        else None),
      url_resolve = (\<lambda>raw base. None),
      client_get = (\<lambda>s.
        if s = photo_url then
          Inr \<lparr>statusCode = 200, content_type = Some ''image/jpeg'', res_body = ''JPEG-BYTES-OF-THE-PHOTO''\<rparr>
        else if s = icon_url then
          Inr \<lparr>statusCode = 200, content_type = Some ''Image/PNG'', res_body = ''PNG-ICON''\<rparr>
        else if s = page_url then
          Inr \<lparr>statusCode = 200, content_type = Some ''text/html; charset=utf-8'', res_body = ''<html></html>''\<rparr>
        else Inl ''getaddrinfo ENOTFOUND''),
      cheerio_load = (\<lambda>html. \<lparr>imgs = [], anchors = []\<rparr>),
      imageSize = (\<lambda>b.
        if b = ''JPEG-BYTES-OF-THE-PHOTO'' then Inr \<lparr>width = Some 300, height = Some 200, img_type = Some ''jpg''\<rparr>
        else if b = ''PNG-ICON'' then Inr \<lparr>width = Some 50, height = Some 50, img_type = Some ''png''\<rparr>
        else Inl ''unsupported file type''),
      sharp_encode = (\<lambda>b fmt q. Inr (''enc:'' @ b)),
      sha1_hex = (\<lambda>s. ''3f786850e387550fdab836ed7e6dc881de23001b''),
      write_error = (\<lambda>p. None)\<rparr>"

definition sample_urls :: "string list" where
  "sample_urls = [photo_url, icon_url, photo_url, page_url, ''https://gone.example/x.gif'', icon_url]"

section \<open>Scroll collection (pinterest-driver.js)\<close>

subsection \<open>Normalizing a gallery image location\<close>

text \<open>
  \<^verbatim>\<open>replace(/\/(\d+x)\//, '/originals/')\<close>: the leftmost slash that is followed by one or
  more digits, an \<^verbatim>\<open>x\<close> and a slash is replaced, with them, by \<^verbatim>\<open>/originals/\<close>.
\<close>

fun replace_thumb :: "string \<Rightarrow> string" where
  "replace_thumb [] = []"
| "replace_thumb (c # cs) =
     (if c = CHR ''/'' \<and> takeWhile is_digit cs \<noteq> [] \<and> startsWith (dropWhile is_digit cs) ''x/''
      then ''/originals/'' @ drop 2 (dropWhile is_digit cs)
      else c # replace_thumb cs)"

definition normalizePinterestImageUrl :: "env \<Rightarrow> string \<Rightarrow> string option" where
  "normalizePinterestImageUrl e rawUrl =
     (case url_parse e rawUrl of
        None \<Rightarrow> None
      | Some parsed \<Rightarrow>
          if \<not> str_includes (hostname parsed) ''pinimg.com'' then Some (href parsed)
          else Some (href (parsed\<lparr>pathname := replace_thumb (pathname parsed)\<rparr>)))"

subsection \<open>Inspecting the rendered images\<close>

text \<open>
  An \<^verbatim>\<open>img\<close> element as the in-page script reads it: the text of the closest container
  (\<open>None\<close> when there is none), the \<^verbatim>\<open>srcset\<close> and \<^verbatim>\<open>src\<close> attributes, \<^verbatim>\<open>currentSrc\<close> and
  the natural size.
\<close>

record dom_img =
  container_text :: "string option"
  srcset :: "string option"
  currentSrc :: string
  src_attr :: "string option"
  naturalWidth :: nat
  naturalHeight :: nat

definition adKeywords :: "string list" where
  "adKeywords = [''sponsored'', ''promoted'', ''ad'', ''ads'', ''sponsorizzato'', ''pubblicita'']"

definition container_lower :: "dom_img \<Rightarrow> string" where
  "container_lower i = toLowerCase (case container_text i of None \<Rightarrow> [] | Some t \<Rightarrow> t)"

text \<open>The last entry of a \<^verbatim>\<open>srcset\<close>: the first word of each comma-separated item, the empty ones dropped.\<close>

definition srcset_parts :: "string \<Rightarrow> string list" where
  "srcset_parts s =
     filter (\<lambda>p. p \<noteq> [])
       (map (\<lambda>item. takeWhile (\<lambda>c. \<not> is_space c) (trim item)) (split_on CHR '','' s))"

datatype verdict = Ad | Rejected | Accepted string

text \<open>The body of the loop over the images of the page.\<close>

definition inspect_img :: "dom_img \<Rightarrow> verdict" where
  "inspect_img i =
     (if list_ex (\<lambda>k. str_includes (container_lower i) k) adKeywords then Ad
      else
        let ss = (case srcset i of None \<Rightarrow> [] | Some s \<Rightarrow> s);
            c0 = or_default (currentSrc i) (case src_attr i of None \<Rightarrow> [] | Some s \<Rightarrow> s);
            parts = srcset_parts ss;
            candidate = (if trim ss \<noteq> [] \<and> parts \<noteq> [] then last parts else c0)
        in if \<not> startsWith candidate ''http'' then Rejected
           else if naturalWidth i > 120 \<and> naturalHeight i > 120 then Accepted candidate
           else Rejected)"

record batch =
  urls :: "string list"
  b_adsSkipped :: nat

definition evaluate_batch :: "dom_img list \<Rightarrow> batch" where
  "evaluate_batch els =
     \<lparr>urls = concat (map (\<lambda>i. case inspect_img i of Accepted u \<Rightarrow> [u] | _ \<Rightarrow> []) els),
      b_adsSkipped = length (filter (\<lambda>i. inspect_img i = Ad) els)\<rparr>"

subsection \<open>The collection loop\<close>

text \<open>The loop over one batch, with its \<^verbatim>\<open>break\<close> once the set has \<open>maxImages\<close> elements.\<close>

fun add_batch :: "env \<Rightarrow> nat \<Rightarrow> string list \<Rightarrow> string list \<Rightarrow> string list" where
  "add_batch e maxImages found [] = found"
| "add_batch e maxImages found (raw # rest) =
     (case normalizePinterestImageUrl e raw of
        None \<Rightarrow> add_batch e maxImages found rest
      | Some normalized \<Rightarrow>
          let found' = set_add found normalized
          in if length found' \<ge> maxImages then found' else add_batch e maxImages found' rest)"

record collect_state =
  found :: "string list"
  adsSkipped :: nat
  scroll :: nat
  messages :: "string list"

text \<open>
  One pass of the \<^verbatim>\<open>while\<close> loop, and the loop. The browser is the function \<open>rendered\<close>:
  the images in the page at each pass, the pass counted from 0. Both limits are natural
  numbers.
\<close>

definition collect_pass :: "env \<Rightarrow> (nat \<Rightarrow> dom_img list) \<Rightarrow> nat \<Rightarrow> collect_state \<Rightarrow> collect_state" where
  "collect_pass e rendered maxImages st =
     (let b = evaluate_batch (rendered (scroll st));
          ads = adsSkipped st + b_adsSkipped b;
          fnd = add_batch e maxImages (found st) (urls b);
          msg = ''PINTEREST scroll='' @ nat_to_dec (scroll st + 1) @ '' collected='' @ nat_to_dec (length fnd)
                @ '' adsSkipped='' @ nat_to_dec ads
      in \<lparr>found = fnd, adsSkipped = ads, scroll = scroll st + 1, messages = messages st @ [msg]\<rparr>)"

function collect_loop :: "env \<Rightarrow> (nat \<Rightarrow> dom_img list) \<Rightarrow> nat \<Rightarrow> nat \<Rightarrow> collect_state \<Rightarrow> collect_state" where
  "collect_loop e rendered maxImages maxScrolls st =
     (if scroll st < maxScrolls \<and> length (found st) < maxImages
      then collect_loop e rendered maxImages maxScrolls (collect_pass e rendered maxImages st)
      else st)"
  by pat_completeness auto
termination
  by (relation "measure (\<lambda>(e, rendered, maxImages, maxScrolls, st). maxScrolls - scroll st)")
     (auto simp: collect_pass_def Let_def)

declare collect_loop.simps [simp del]

record collect_stats =
  scrolls :: nat
  collected_count :: nat
  ads_skipped :: nat

record collect_result =
  imageUrls :: "string list"
  cstats :: collect_stats

text \<open>
  \<^verbatim>\<open>collectPinterestImageUrls\<close> from the point where the page is open; the messages are
  those of the loop.
\<close>

definition initial_collect :: collect_state where
  "initial_collect = \<lparr>found = [], adsSkipped = 0, scroll = 0, messages = []\<rparr>"

definition collectPinterestImageUrls ::
  "env \<Rightarrow> (nat \<Rightarrow> dom_img list) \<Rightarrow> nat \<Rightarrow> nat \<Rightarrow> collect_result" where
  "collectPinterestImageUrls e rendered maxImages maxScrolls =
     (let st = collect_loop e rendered maxImages maxScrolls initial_collect
      in \<lparr>imageUrls = found st,
          cstats = \<lparr>scrolls = scroll st, collected_count = length (found st), ads_skipped = adsSkipped st\<rparr>\<rparr>)"

text \<open>An element whose container text, in lower case, contains \<^verbatim>\<open>sponsored\<close>.\<close>

definition sponsored :: "dom_img \<Rightarrow> bool" where
  "sponsored i = str_includes (container_lower i) ''sponsored''"

text \<open>The distinct normalized locations a rendering offers.\<close>

definition offered :: "env \<Rightarrow> dom_img list \<Rightarrow> string list" where
  "offered e els = new_Set (List.map_filter (normalizePinterestImageUrl e) (urls (evaluate_batch els)))"

text \<open>
  A sample gallery: a stand-in parser for locations on one image host, and a page that shows
  ten new pins and one sponsored pin at every pass.
\<close>

definition gallery_parse :: "string \<Rightarrow> url option" where
  "gallery_parse s =
     (if startsWith s ''https://i.pinimg.com/''
      then Some \<lparr>protocol = ''https:'', userinfo = [], hostname = ''i.pinimg.com'', port = [],
                 pathname = drop 20 s, search = [], hash = []\<rparr>
      else None)"

definition gallery_env :: env where
  "gallery_env = sample_env\<lparr>url_parse := gallery_parse\<rparr>"

definition pin :: "nat \<Rightarrow> dom_img" where
  "pin n = \<lparr>container_text = Some ''Travel photo'', srcset = None,
            currentSrc = ''https://i.pinimg.com/236x/ab/'' @ nat_to_dec n @ ''.jpg'',
            src_attr = None, naturalWidth = 236, naturalHeight = 354\<rparr>"

definition sponsored_pin :: dom_img where
  "sponsored_pin = \<lparr>container_text = Some ''Sponsored by Acme'', srcset = None,
            currentSrc = ''https://i.pinimg.com/236x/ad/offer.jpg'',
            src_attr = None, naturalWidth = 236, naturalHeight = 354\<rparr>"

definition gallery :: "nat \<Rightarrow> dom_img list" where
  "gallery k = sponsored_pin # map (\<lambda>j. pin (10 * k + j)) [0..<10]"

section \<open>Site crawl (crawler.js)\<close>

subsection \<open>Extracting image locations and links\<close>

definition normalizeUrl :: "env \<Rightarrow> string \<Rightarrow> string \<Rightarrow> string option" where
  "normalizeUrl e raw base = map_option href (url_resolve e raw base)"

definition first_truthy :: "string option list \<Rightarrow> string option" where
  "first_truthy vs = (case filter (\<lambda>v. v \<noteq> None \<and> v \<noteq> Some []) vs of [] \<Rightarrow> None | v # _ \<Rightarrow> v)"

definition extractImageUrls :: "env \<Rightarrow> page \<Rightarrow> string \<Rightarrow> string list" where
  "extractImageUrls e pg pageUrl =
     foldl (\<lambda>s el.
        case first_truthy [src el, data_src el, data_original el] of
          None \<Rightarrow> s
        | Some sr \<Rightarrow>
            (case normalizeUrl e sr pageUrl of
               None \<Rightarrow> s
             | Some full \<Rightarrow> if startsWith full ''data:'' then s else set_add s full))
       [] (imgs pg)"

text \<open>
  The body of the loop of \<^verbatim>\<open>extractLinks\<close> over the anchors: the set so far, or the
  message of the error when \<^verbatim>\<open>new URL(full)\<close> throws.
\<close>

definition link_step :: "env \<Rightarrow> string \<Rightarrow> bool \<Rightarrow> string \<Rightarrow> string + string list \<Rightarrow> string \<Rightarrow> string + string list" where
  "link_step e pageUrl sameOriginOnly pageOrigin acc hr =
     (case acc of
        Inl err \<Rightarrow> Inl err
      | Inr s \<Rightarrow>
          if hr = [] then Inr s
          else
            (case normalizeUrl e hr pageUrl of
               None \<Rightarrow> Inr s
             | Some full \<Rightarrow>
                 (case url_parse e full of
                    None \<Rightarrow> Inl ''Invalid URL''
                  | Some parsed \<Rightarrow>
                      if protocol parsed \<notin> set [''http:'', ''https:''] then Inr s
                      else if sameOriginOnly \<and> origin parsed \<noteq> pageOrigin then Inr s
                      else Inr (set_add s (href (parsed\<lparr>hash := []\<rparr>))))))"

definition extractLinks :: "env \<Rightarrow> page \<Rightarrow> string \<Rightarrow> bool \<Rightarrow> string + string list" where
  "extractLinks e pg pageUrl sameOriginOnly =
     (case url_parse e pageUrl of
        None \<Rightarrow> Inl ''Invalid URL''
      | Some pu \<Rightarrow> foldl (link_step e pageUrl sameOriginOnly (origin pu)) (Inr []) (anchors pg))"

text \<open>\<^verbatim>\<open>fetchHtml\<close>: \<open>Inl\<close> when the client throws, \<open>Inr None\<close> for \<^verbatim>\<open>null\<close>.\<close>

definition fetchHtml :: "env \<Rightarrow> string \<Rightarrow> string + string option" where
  "fetchHtml e pageUrl =
     (case client_get e pageUrl of
        Inl err \<Rightarrow> Inl err
      | Inr res \<Rightarrow>
          let ct = toLowerCase (case content_type res of None \<Rightarrow> [] | Some s \<Rightarrow> s)
          in if \<not> str_includes ct ''text/html'' then Inr None else Inr (Some (res_body res)))"

subsection \<open>The breadth-first loop of run\<close>

text \<open>
  The variables of the loop, the messages logged, and \<open>visits\<close>: the pages for which
  \<^verbatim>\<open>SITE visit\<close> was logged, each with its depth. Depths are natural numbers;
  \<open>maxDepth\<close> is an integer.
\<close>

record crawl_state =
  queue :: "(string \<times> nat) list"
  visitedPages :: "string list"
  discoveredImages :: "string list"
  pagesVisited :: nat
  visits :: "(string \<times> nat) list"
  crawl_log :: "string list"

definition initial_crawl :: "string \<Rightarrow> crawl_state" where
  "initial_crawl startUrl =
     \<lparr>queue = [(startUrl, 0)], visitedPages = [], discoveredImages = [], pagesVisited = 0,
      visits = [], crawl_log = []\<rparr>"

definition site_log :: "string \<Rightarrow> crawl_state \<Rightarrow> crawl_state" where
  "site_log msg st = st\<lparr>crawl_log := crawl_log st @ [msg]\<rparr>"

text \<open>
  One pass of the \<^verbatim>\<open>while\<close> loop on a non-empty queue. The first component is the message
  of an error that no \<^verbatim>\<open>try\<close> of the loop catches, which ends the run.
\<close>

definition crawl_step :: "env \<Rightarrow> int \<Rightarrow> bool \<Rightarrow> crawl_state \<Rightarrow> string option \<times> crawl_state" where
  "crawl_step e maxDepth sameOriginOnly st =
     (case queue st of
        [] \<Rightarrow> (None, st)
      | (cur, depth) # rest \<Rightarrow>
          let st1 = st\<lparr>queue := rest\<rparr> in
          if cur \<in> set (visitedPages st1) \<or> int depth > maxDepth then (None, st1)
          else
            let st2 = site_log (''SITE visit depth='' @ nat_to_dec depth @ '' url='' @ cur)
                        (st1\<lparr>visitedPages := set_add (visitedPages st1) cur,
                              visits := visits st1 @ [(cur, depth)]\<rparr>) in
            (case fetchHtml e cur of
               Inl err \<Rightarrow> (None, site_log (''SITE page_error url='' @ cur @ '' err='' @ err) st2)
             | Inr None \<Rightarrow> (None, site_log (''SITE skipped_non_html url='' @ cur) st2)
             | Inr (Some html) \<Rightarrow>
                 if html = [] then (None, site_log (''SITE skipped_non_html url='' @ cur) st2)
                 else
                   let pg = cheerio_load e html;
                       imageUrls = extractImageUrls e pg cur;
                       st3 = site_log (''SITE discovered page='' @ cur @ '' images=''
                                       @ nat_to_dec (length imageUrls))
                               (st2\<lparr>pagesVisited := pagesVisited st2 + 1,
                                     discoveredImages := discoveredImages st2 @ imageUrls\<rparr>)
                   in if int depth < maxDepth then
                        (case extractLinks e pg cur sameOriginOnly of
                           Inl err \<Rightarrow> (Some err, st3)
                         | Inr links \<Rightarrow>
                             (None, st3\<lparr>queue := queue st3
                                @ map (\<lambda>l. (l, depth + 1))
                                    (filter (\<lambda>l. l \<notin> set (visitedPages st3)) links)\<rparr>))
                      else (None, st3)))"

text \<open>
  The loop for at most \<open>n\<close> passes: it stops earlier when the queue is empty or an
  uncaught error ends the run.
\<close>

fun crawl_steps :: "env \<Rightarrow> int \<Rightarrow> bool \<Rightarrow> nat \<Rightarrow> crawl_state \<Rightarrow> string option \<times> crawl_state" where
  "crawl_steps e maxDepth sameOriginOnly 0 st = (None, st)"
| "crawl_steps e maxDepth sameOriginOnly (Suc n) st =
     (if queue st = [] then (None, st)
      else case crawl_step e maxDepth sameOriginOnly st of
             (Some err, st') \<Rightarrow> (Some err, st')
           | (None, st') \<Rightarrow> crawl_steps e maxDepth sameOriginOnly n st')"

subsection \<open>What holds of an enqueued link\<close>

text \<open>
  A link as the loop enqueues it: it parses, its scheme is http or https, it has no
  fragment, and, when the crawl is restricted to one origin, its origin is the origin of
  the seed.
\<close>

definition seed_origin :: "env \<Rightarrow> string \<Rightarrow> string option" where
  "seed_origin e startUrl = map_option origin (url_parse e startUrl)"

definition link_ok :: "env \<Rightarrow> bool \<Rightarrow> string \<Rightarrow> string \<Rightarrow> bool" where
  "link_ok e sameOriginOnly startUrl l =
     (case url_parse e l of
        None \<Rightarrow> False
      | Some v \<Rightarrow> protocol v \<in> set [''http:'', ''https:''] \<and> hash v = []
                 \<and> (if sameOriginOnly then seed_origin e startUrl = Some (origin v) else True))"

text \<open>The same of a link that \<^verbatim>\<open>extractLinks\<close> returns, with the origin of the page it was found on.\<close>

definition good_link :: "env \<Rightarrow> bool \<Rightarrow> string \<Rightarrow> string \<Rightarrow> bool" where
  "good_link e so pageOrigin l =
     (case url_parse e l of
        None \<Rightarrow> False
      | Some v \<Rightarrow> protocol v \<in> set [''http:'', ''https:''] \<and> hash v = []
                 \<and> (if so then origin v = pageOrigin else True))"

text \<open>Every entry of the queue is the seed at depth 0 or such a link at a depth of at least 1.\<close>

definition depths_ok :: "int \<Rightarrow> (string \<times> nat) list \<Rightarrow> bool" where
  "depths_ok maxDepth vs = list_all (\<lambda>(l, d). int d \<le> maxDepth) vs"

definition queue_ok :: "env \<Rightarrow> bool \<Rightarrow> string \<Rightarrow> (string \<times> nat) list \<Rightarrow> bool" where
  "queue_ok e sameOriginOnly startUrl q =
     list_all (\<lambda>(l, d). (l = startUrl \<and> d = 0) \<or> (0 < d \<and> link_ok e sameOriginOnly startUrl l)) q"

text \<open>
  The parser's contract used below: a parsed URL, serialized without its fragment, parses
  to itself.
\<close>

definition reparses :: "env \<Rightarrow> bool" where
  "reparses e = (\<forall>s u. url_parse e s = Some u \<longrightarrow>
                   url_parse e (href (u\<lparr>hash := []\<rparr>)) = Some (u\<lparr>hash := []\<rparr>))"

subsection \<open>A sample site\<close>

definition site_url :: "string \<Rightarrow> string \<Rightarrow> string \<Rightarrow> string \<Rightarrow> url" where
  "site_url pr h p f = \<lparr>protocol = pr, userinfo = [], hostname = h, port = [], pathname = p,
                        search = [], hash = f\<rparr>"

definition site_table :: "(string \<times> url) list" where
  "site_table =
     [(''https://site.example/'', site_url ''https:'' ''site.example'' ''/'' []),
      (''https://site.example/about'', site_url ''https:'' ''site.example'' ''/about'' []),
      (''https://site.example/about#team'', site_url ''https:'' ''site.example'' ''/about'' ''#team''),
      (''https://other.example/x'', site_url ''https:'' ''other.example'' ''/x'' []),
      (''ftp://site.example/files'', site_url ''ftp:'' ''site.example'' ''/files'' []),
      (''https://site.example/logo.png'', site_url ''https:'' ''site.example'' ''/logo.png'' [])]"

definition site_resolve :: "string \<Rightarrow> string \<Rightarrow> url option" where
  "site_resolve raw base =
     map_of [(''/'', site_url ''https:'' ''site.example'' ''/'' []),
             (''/about'', site_url ''https:'' ''site.example'' ''/about'' []),
             (''/about#team'', site_url ''https:'' ''site.example'' ''/about'' ''#team''),
             (''https://other.example/x'', site_url ''https:'' ''other.example'' ''/x'' []),
             (''ftp://site.example/files'', site_url ''ftp:'' ''site.example'' ''/files'' []),
             (''logo.png'', site_url ''https:'' ''site.example'' ''/logo.png'' [])] raw"

definition site_env :: env where
  "site_env = sample_env
     \<lparr>url_parse := map_of site_table,
      url_resolve := site_resolve,
      client_get := (\<lambda>s.
        if s = ''https://site.example/'' then
          Inr \<lparr>statusCode = 200, content_type = Some ''text/html; charset=utf-8'', res_body = ''HOME''\<rparr>
        else if s = ''https://site.example/about'' then
          Inr \<lparr>statusCode = 200, content_type = Some ''text/html'', res_body = ''ABOUT''\<rparr>
        else Inl ''getaddrinfo ENOTFOUND''),
      cheerio_load := (\<lambda>html.
        if html = ''HOME'' then
          \<lparr>imgs = [\<lparr>src = Some ''logo.png'', data_src = None, data_original = None\<rparr>],
           anchors = [''/about#team'', ''https://other.example/x'', ''ftp://site.example/files'', ''/about'']\<rparr>
        else \<lparr>imgs = [], anchors = [''/'']\<rparr>)\<rparr>"

section \<open>Properties of the job runner\<close>

text \<open>
  C8. A start request that arrives while \<open>running\<close> is set is answered with status 409,
  \<^verbatim>\<open>ok: false\<close> and the already-running error, and the job state after the request is the
  job state before it, field for field.
\<close>

theorem start_while_running_rejected:
  assumes "running st"
  shows "post_crawl_start execPath spawn now req st
           = (Json 409 False (Some ''Crawler gia in esecuzione'') st, st)"
  using assms by (simp add: post_crawl_start_def)

theorem start_while_running_rejected_witness:
  "running busy_state \<and>
   post_crawl_start ''node'' (\<lambda>_. Child (Some 7)) 2000 empty_payload busy_state
     = (Json 409 False (Some ''Crawler gia in esecuzione'') busy_state, busy_state)"
proof -
  have r: "running busy_state" by (simp add: busy_state_def)
  show ?thesis
    using r start_while_running_rejected [OF r, of "''node''" "\<lambda>_. Child (Some 7)" 2000 empty_payload]
    by simp
qed

text \<open>
  C9, as the specification states it, fails on the code. When the executable cannot be
  launched, \<^verbatim>\<open>spawn\<close> still returns a child (with no pid) and \<^verbatim>\<open>startCrawler\<close> sets
  \<open>running\<close> before the child's \<^verbatim>\<open>error\<close> event is delivered; the error listener then records
  the message and leaves \<open>running\<close> set. The run below is a start request on the idle state
  whose launch fails, followed by that error event.
\<close>

theorem launch_failure_enters_running:
  "running (job_step ''node'' (StartRequest empty_payload (Child None) 1000) initial_state)
   \<and> pid (job_step ''node'' (StartRequest empty_payload (Child None) 1000) initial_state) = None
   \<and> running (job_step ''node'' (ChildError ''spawn node ENOENT'')
         (job_step ''node'' (StartRequest empty_payload (Child None) 1000) initial_state))
   \<and> lastError (job_step ''node'' (ChildError ''spawn node ENOENT'')
         (job_step ''node'' (StartRequest empty_payload (Child None) 1000) initial_state))
       = Some ''spawn node ENOENT''"
  by (simp add: post_crawl_start_def startCrawler_def on_error_def initial_state_def)

text \<open>
  C9, amended. A start request accepted on an idle state sets \<open>running\<close> whatever the
  child's pid is, so also when the launch failed; when \<^verbatim>\<open>spawn\<close> throws, the state is left
  as it was. The child's error event changes \<open>lastError\<close> only. The state leaves
  \<open>running\<close> through the child's close event and through nothing else, and that event
  records the end time and the exit status.
\<close>

theorem job_lifecycle:
  "(\<not> running st \<longrightarrow> running (job_step x (StartRequest req (Child cpid) now) st))
   \<and> job_step x (StartRequest req (SpawnThrows e) now) st = st
   \<and> job_step x (ChildError msg) st = st\<lparr>lastError := Some msg\<rparr>
   \<and> (running st \<and> \<not> running (job_step x ev st) \<longrightarrow>
        (\<exists>code t. ev = ChildClose code t
           \<and> job_step x ev st = st\<lparr>running := False, pid := None, endedAt := Some t, exitCode := code\<rparr>))"
proof -
  have a: "\<not> running st \<longrightarrow> running (job_step x (StartRequest req (Child cpid) now) st)"
    by (simp add: post_crawl_start_def startCrawler_def)
  have b: "job_step x (StartRequest req (SpawnThrows e) now) st = st"
    by (simp add: post_crawl_start_def startCrawler_def)
  have c: "job_step x (ChildError msg) st = st\<lparr>lastError := Some msg\<rparr>"
    by (simp add: on_error_def)
  have d: "running st \<and> \<not> running (job_step x ev st) \<longrightarrow>
        (\<exists>code t. ev = ChildClose code t
           \<and> job_step x ev st = st\<lparr>running := False, pid := None, endedAt := Some t, exitCode := code\<rparr>)"
  proof (cases ev)
    case (StartRequest req' sp now')
    then show ?thesis by (simp add: post_crawl_start_def)
  next
    case (ChildError m)
    then show ?thesis by (simp add: on_error_def)
  next
    case (ChildClose code t)
    then show ?thesis by (simp add: on_close_def)
  qed
  from a b c d show ?thesis by blast
qed

theorem job_lifecycle_witness:
  "\<not> running initial_state
   \<and> running (job_step ''node'' (StartRequest empty_payload (Child None) 1000) initial_state)
   \<and> running busy_state
   \<and> \<not> running (job_step ''node'' (ChildClose (Some 0) 9000) busy_state)
   \<and> job_step ''node'' (ChildClose (Some 0) 9000) busy_state
       = busy_state\<lparr>running := False, pid := None, endedAt := Some 9000, exitCode := Some 0\<rparr>"
proof -
  have i: "\<not> running initial_state" by (simp add: initial_state_def)
  have r: "running busy_state" by (simp add: busy_state_def)
  have n: "\<not> running (job_step ''node'' (ChildClose (Some 0) 9000) busy_state)"
    by (simp add: on_close_def)
  from job_lifecycle [of initial_state "''node''" empty_payload None 1000]
  have s: "running (job_step ''node'' (StartRequest empty_payload (Child None) 1000) initial_state)"
    using i by blast
  from job_lifecycle [of busy_state "''node''" _ _ _ _ _ "ChildClose (Some 0) 9000"]
  have c: "job_step ''node'' (ChildClose (Some 0) 9000) busy_state
       = busy_state\<lparr>running := False, pid := None, endedAt := Some 9000, exitCode := Some 0\<rparr>"
    using r n by auto
  from i s r n c show ?thesis by blast
qed

section \<open>Properties of image deletion\<close>

lemma basename_no_slash: "CHR ''/'' \<notin> set (basename p)"
  unfolding basename_def is_slash_def
  by (auto dest: set_takeWhileD)

lemma basename_id: "CHR ''/'' \<notin> set p \<Longrightarrow> basename p = p"
proof -
  assume a: "CHR ''/'' \<notin> set p"
  have d: "dropWhile is_slash (rev p) = rev p"
    using a by (cases "rev p") (auto simp: is_slash_def)
  have t: "takeWhile (\<lambda>c. \<not> is_slash c) (rev p) = rev p"
    using a by (auto simp: is_slash_def)
  show ?thesis by (simp add: basename_def d t)
qed

lemma safeImageName_Some_iff:
  "safeImageName raw = Some n \<longleftrightarrow> (n = trim raw \<and> plain_name n)"
proof
  assume "safeImageName raw = Some n"
  then have n: "n = basename (trim raw)" and e: "basename (trim raw) = trim raw"
    and ne: "n \<noteq> []" "n \<noteq> ''.''" "n \<noteq> ''..''"
    by (auto simp: safeImageName_def Let_def split: if_splits)
  from basename_no_slash [of "trim raw"] n have "CHR ''/'' \<notin> set n" by simp
  with n e ne show "n = trim raw \<and> plain_name n" by (simp add: plain_name_def)
next
  assume a: "n = trim raw \<and> plain_name n"
  then have "basename (trim raw) = trim raw"
    using basename_id [of "trim raw"] by (auto simp: plain_name_def)
  with a show "safeImageName raw = Some n"
    by (auto simp: safeImageName_def Let_def exists_raw_def plain_name_def)
qed

lemma split_on_nosep: "sep \<notin> set s \<Longrightarrow> split_on sep s = [s]"
  by (induction s) auto

lemma split_on_append: "sep \<notin> set s \<Longrightarrow> split_on sep (s @ sep # r) = s # split_on sep r"
  by (induction s) auto

lemma split_abs_dir:
  "\<forall>s\<in>set segs. CHR ''/'' \<notin> set s \<Longrightarrow> split_on CHR ''/'' (abs_dir segs) = [] # segs"
proof (induction segs)
  case Nil
  then show ?case by (simp add: abs_dir_def)
next
  case (Cons s segs)
  then have ih: "split_on CHR ''/'' (abs_dir segs) = [] # segs" by simp
  have ns: "CHR ''/'' \<notin> set s" using Cons.prems by simp
  show ?case
  proof (cases segs)
    case Nil
    then show ?thesis using ns by (simp add: abs_dir_def split_on_nosep)
  next
    case (Cons t ts)
    then have "abs_dir (s # segs) = CHR ''/'' # (s @ CHR ''/'' # (t @ abs_dir ts))"
      by (simp add: abs_dir_def)
    moreover have "split_on CHR ''/'' (CHR ''/'' # (t @ abs_dir ts)) = [] # segs"
      using ih Cons by (simp add: abs_dir_def)
    then have "split_on CHR ''/'' (t @ abs_dir ts) = segs" by simp
    ultimately show ?thesis using ns by (simp add: split_on_append)
  qed
qed

lemma foldl_normalize_plain:
  "\<forall>s\<in>set segs. plain_name s \<Longrightarrow> foldl (normalize_step b) stack segs = stack @ segs"
  by (induction segs arbitrary: stack) (auto simp: normalize_step_def plain_name_def)

lemma join_abs_dir: "segs \<noteq> [] \<Longrightarrow> CHR ''/'' # join ''/'' segs = abs_dir segs"
proof (induction segs)
  case Nil
  then show ?case by simp
next
  case (Cons a as)
  then show ?case by (cases as) (auto simp: abs_dir_def)
qed

lemma path_normalize_abs_dir:
  assumes "segs \<noteq> []" and "\<forall>s\<in>set segs. plain_name s"
  shows "path_normalize (abs_dir segs) = abs_dir segs"
proof -
  have ns: "\<forall>s\<in>set segs. CHR ''/'' \<notin> set s" using assms(2) by (simp add: plain_name_def)
  obtain s ss where segs: "segs = s # ss" using assms(1) by (cases segs) auto
  have ne: "abs_dir segs \<noteq> []" and hd: "hd (abs_dir segs) = CHR ''/''"
    using segs by (simp_all add: abs_dir_def)
  have lastseg: "last (abs_dir segs) = last (last segs)"
    using assms
  proof (induction segs)
    case Nil then show ?case by simp
  next
    case (Cons a as)
    then show ?case by (cases as) (auto simp: abs_dir_def plain_name_def)
  qed
  have "plain_name (last segs)" using assms by simp
  then have nl: "last (abs_dir segs) \<noteq> CHR ''/''"
    unfolding lastseg plain_name_def by (metis last_in_set)
  have q: "normalizeString (abs_dir segs) False = join ''/'' segs"
    using assms(2) by (simp add: normalizeString_def split_abs_dir [OF ns] normalize_step_def foldl_normalize_plain)
  have qne: "join ''/'' segs \<noteq> []"
    using join_abs_dir [OF assms(1)] segs assms(2) by (cases ss) (auto simp: plain_name_def)
  show ?thesis
    using ne hd nl q qne join_abs_dir [OF assms(1)]
    by (simp add: path_normalize_def Let_def)
qed

lemma path_join_abs_dir:
  assumes "segs \<noteq> []" and "\<forall>s\<in>set segs. plain_name s" and "plain_name n"
  shows "path_join [abs_dir segs, n] = abs_dir segs @ CHR ''/'' # n"
proof -
  have ne: "abs_dir segs \<noteq> []" using assms(1) by (cases segs) (simp_all add: abs_dir_def)
  have n: "n \<noteq> []" using assms(3) by (simp add: plain_name_def)
  have j: "join ''/'' [abs_dir segs, n] = abs_dir (segs @ [n])" by (simp add: abs_dir_def)
  have "path_normalize (abs_dir (segs @ [n])) = abs_dir (segs @ [n])"
    using assms by (intro path_normalize_abs_dir) auto
  then show ?thesis using ne n j by (simp add: path_join_def abs_dir_def)
qed

lemma directly_inside_intro: "plain_name n \<Longrightarrow> directly_inside d (d @ CHR ''/'' # n)"
  by (simp add: directly_inside_def)

lemma delete_step:
  assumes "segs \<noteq> []" and "\<forall>s\<in>set segs. plain_name s"
    and "deleteImageByName (abs_dir segs) fs raw = (r, fs')"
  shows "dirs fs' = dirs fs \<and> files fs' \<subseteq> files fs
         \<and> (\<forall>p\<in>files fs - files fs'. directly_inside (abs_dir segs) p)
         \<and> (\<not> plain_name (trim raw) \<longrightarrow> \<not> ok r \<and> fs' = fs)"
proof (cases "safeImageName raw")
  case None
  then have "\<not> plain_name (trim raw)" using safeImageName_Some_iff [of raw "trim raw"] by simp
  with None assms(3) show ?thesis by (auto simp: deleteImageByName_def)
next
  case (Some n)
  then have n: "n = trim raw" "plain_name n" using safeImageName_Some_iff by auto
  have j: "path_join [abs_dir segs, trim raw] = abs_dir segs @ CHR ''/'' # trim raw"
    using path_join_abs_dir [OF assms(1,2) n(2)] n(1) by simp
  show ?thesis
    using assms(3) Some n directly_inside_intro [OF n(2), of "abs_dir segs"]
    by (auto simp: deleteImageByName_def j fs_unlink_def Let_def split: if_splits)
qed

lemma delete_all_safe:
  assumes "segs \<noteq> []" and "\<forall>s\<in>set segs. plain_name s"
  shows "delete_all (abs_dir segs) fs ns = (rs, fs') \<Longrightarrow>
         dirs fs' = dirs fs \<and> files fs' \<subseteq> files fs
         \<and> (\<forall>p\<in>files fs - files fs'. directly_inside (abs_dir segs) p)"
proof (induction ns arbitrary: fs rs fs')
  case Nil
  then show ?case by simp
next
  case (Cons n ns)
  obtain r fs1 where s1: "deleteImageByName (abs_dir segs) fs n = (r, fs1)" by fastforce
  obtain rs2 fs2 where s2: "delete_all (abs_dir segs) fs1 ns = (rs2, fs2)" by fastforce
  from Cons.prems s1 s2 have e: "fs' = fs2" by simp
  from delete_step [OF assms s1] Cons.IH [OF s2] e show ?case by blast
qed

text \<open>
  C10. Let the images directory be an absolute path in normal form. If the trimmed name is
  empty, or its \<^verbatim>\<open>path.basename\<close> is a dot entry or differs from it (so it has a directory
  part or a trailing slash), \<^verbatim>\<open>deleteImageByName\<close> answers not-ok and leaves the file
  system as it was. Whatever the name, every file that a single delete or a batch delete
  removes lies directly inside the images directory.
\<close>

theorem delete_only_plain_names:
  assumes "segs \<noteq> []" and "\<forall>s\<in>set segs. plain_name s"
  shows "(trim raw = [] \<or> basename (trim raw) = ''.'' \<or> basename (trim raw) = ''..''
            \<or> basename (trim raw) \<noteq> trim raw
          \<longrightarrow> \<not> ok (fst (deleteImageByName (abs_dir segs) fs raw))
              \<and> snd (deleteImageByName (abs_dir segs) fs raw) = fs)
       \<and> (\<forall>p \<in> files fs - files (snd (deleteImageByName (abs_dir segs) fs raw)).
              directly_inside (abs_dir segs) p)
       \<and> (\<forall>p \<in> files fs - files (snd (delete_batch (abs_dir segs) fs names)).
              directly_inside (abs_dir segs) p)"
proof -
  obtain r fs' where d: "deleteImageByName (abs_dir segs) fs raw = (r, fs')" by fastforce
  have "trim raw = [] \<or> basename (trim raw) = ''.'' \<or> basename (trim raw) = ''..''
            \<or> basename (trim raw) \<noteq> trim raw \<Longrightarrow> \<not> plain_name (trim raw)"
    using basename_id [of "trim raw"] by (auto simp: plain_name_def)
  then have a: "trim raw = [] \<or> basename (trim raw) = ''.'' \<or> basename (trim raw) = ''..''
            \<or> basename (trim raw) \<noteq> trim raw
          \<longrightarrow> \<not> ok (fst (deleteImageByName (abs_dir segs) fs raw))
              \<and> snd (deleteImageByName (abs_dir segs) fs raw) = fs"
    using delete_step [OF assms d] d by auto
  have b: "\<forall>p \<in> files fs - files (snd (deleteImageByName (abs_dir segs) fs raw)).
              directly_inside (abs_dir segs) p"
    using delete_step [OF assms d] d by simp
  have c: "\<forall>p \<in> files fs - files (snd (delete_batch (abs_dir segs) fs names)).
              directly_inside (abs_dir segs) p"
  proof (cases "names = [] \<or> new_Set (filter (\<lambda>n. n \<noteq> []) (map trim names)) = []")
    case True
    then show ?thesis by (auto simp: delete_batch_def Let_def)
  next
    case False
    obtain rs fs2 where da: "delete_all (abs_dir segs) fs (new_Set (filter (\<lambda>n. n \<noteq> []) (map trim names))) = (rs, fs2)"
      by fastforce
    with False have "snd (delete_batch (abs_dir segs) fs names) = fs2"
      by (simp add: delete_batch_def Let_def)
    with delete_all_safe [OF assms da] show ?thesis by simp
  qed
  from a b c show ?thesis by blast
qed

theorem delete_only_plain_names_witness:
  "[''app'', ''data'', ''site'', ''images''] \<noteq> []
   \<and> list_all plain_name [''app'', ''data'', ''site'', ''images'']
   \<and> basename (trim '' ../crawl-report.json'') \<noteq> trim '' ../crawl-report.json''
   \<and> \<not> ok (fst (deleteImageByName (abs_dir [''app'', ''data'', ''site'', ''images'']) sample_fs
                 '' ../crawl-report.json''))
   \<and> snd (deleteImageByName (abs_dir [''app'', ''data'', ''site'', ''images'']) sample_fs
            '' ../crawl-report.json'') = sample_fs
   \<and> ''/app/data/site/images/a.png'' \<in> files sample_fs
        - files (snd (deleteImageByName (abs_dir [''app'', ''data'', ''site'', ''images'']) sample_fs ''a.png''))
   \<and> directly_inside (abs_dir [''app'', ''data'', ''site'', ''images'']) ''/app/data/site/images/a.png''"
proof -
  have h1: "[''app'', ''data'', ''site'', ''images''] \<noteq> []" by simp
  have h2: "\<forall>s\<in>set [''app'', ''data'', ''site'', ''images'']. plain_name s"
    by (simp add: plain_name_def)
  have h3: "basename (trim '' ../crawl-report.json'') \<noteq> trim '' ../crawl-report.json''"
    by (simp add: trim_def is_space_def basename_def is_slash_def)
  have h4: "''/app/data/site/images/a.png'' \<in> files sample_fs
        - files (snd (deleteImageByName (abs_dir [''app'', ''data'', ''site'', ''images'']) sample_fs ''a.png''))"
    by code_simp
  note t1 = delete_only_plain_names [OF h1 h2, of "'' ../crawl-report.json''" sample_fs "[]"]
  note t2 = delete_only_plain_names [OF h1 h2, of "''a.png''" sample_fs "[]"]
  have h2': "list_all plain_name [''app'', ''data'', ''site'', ''images'']"
    by (simp add: plain_name_def)
  from h1 h2' h3 h4 t1 t2 show ?thesis by blast
qed

section \<open>Properties of the progress estimator\<close>

lemma startsWith_two:
  assumes "startsWith m p" and "startsWith m q" and "length q \<le> length p"
  shows "take (length q) p = q"
proof -
  have "take (length q) (take (length p) m) = take (length q) m"
    using assms(3) by (simp add: min_def)
  with assms(1,2) show ?thesis by (simp add: startsWith_def)
qed

lemma saved_not_skipped: "startsWith m ''IMG skipped_small'' \<Longrightarrow> \<not> startsWith m ''IMG saved''"
proof
  assume a: "startsWith m ''IMG skipped_small''" and b: "startsWith m ''IMG saved''"
  have "take (length ''IMG saved'') ''IMG skipped_small'' = ''IMG saved''"
    by (rule startsWith_two [OF a b]) simp
  then show False by simp
qed

lemma saved_not_failure: "is_failure_message m \<Longrightarrow> \<not> startsWith m ''IMG saved''"
proof
  assume f: "is_failure_message m" and b: "startsWith m ''IMG saved''"
  from f consider (a) "startsWith m ''IMG failed_non_image_or_status''" | (e) "startsWith m ''IMG error''"
    by (auto simp: is_failure_message_def)
  then show False
  proof cases
    case a
    have "take (length ''IMG saved'') ''IMG failed_non_image_or_status'' = ''IMG saved''"
      by (rule startsWith_two [OF a b]) simp
    then show False by simp
  next
    case e
    have "take (length ''IMG saved'') ''IMG error'' = ''IMG saved''"
      by (rule startsWith_two [OF e b]) simp
    then show False by simp
  qed
qed

lemma skipped_not_failure: "is_failure_message m \<Longrightarrow> \<not> startsWith m ''IMG skipped_small''"
proof
  assume f: "is_failure_message m" and b: "startsWith m ''IMG skipped_small''"
  from f consider (a) "startsWith m ''IMG failed_non_image_or_status''" | (e) "startsWith m ''IMG error''"
    by (auto simp: is_failure_message_def)
  then show False
  proof cases
    case a
    have "take (length ''IMG skipped_small'') ''IMG failed_non_image_or_status'' = ''IMG skipped_small''"
      by (rule startsWith_two [OF a b]) simp
    then show False by simp
  next
    case e
    have "take (length ''IMG error'') ''IMG skipped_small'' = ''IMG error''"
      by (rule startsWith_two [OF b e]) simp
    then show False by simp
  qed
qed

lemma max_list_foldl: "foldl max a xs = max a (max_list xs)"
proof (induction xs arbitrary: a)
  case Nil
  then show ?case by (simp add: max_list_def)
next
  case (Cons x xs)
  have "foldl max a (x # xs) = max (max a x) (max_list xs)" using Cons.IH by simp
  also have "\<dots> = max a (max x (max_list xs))" by (simp only: max.assoc)
  also have "max x (max_list xs) = max_list (x # xs)"
    using Cons.IH [of "max 0 x"] by (simp add: max_list_def)
  finally show ?case .
qed

lemma max_list_Cons: "max_list (x # xs) = max x (max_list xs)"
  using max_list_foldl [of "max 0 x" xs] by (simp add: max_list_def)

lemma progress_step_old:
  "too_old t0 (parseLogLine dp line) \<Longrightarrow> progress_step dp t0 c line = c"
  by (simp add: progress_step_def)

lemma progress_step_counted:
  assumes "\<not> too_old t0 (parseLogLine dp line)"
  defines "m \<equiv> message (parseLogLine dp line)"
  shows "c_saved (progress_step dp t0 c line) = c_saved c + (if startsWith m ''IMG saved'' then 1 else 0)"
    and "c_skipped (progress_step dp t0 c line) = c_skipped c + (if startsWith m ''IMG skipped_small'' then 1 else 0)"
    and "c_failed (progress_step dp t0 c line) = c_failed c + (if is_failure_message m then 1 else 0)"
    and "c_collected (progress_step dp t0 c line)
           = (case scrollMatch m of None \<Rightarrow> c_collected c | Some n \<Rightarrow> max (c_collected c) n)"
    and "c_collectedTotal (progress_step dp t0 c line)
           = (case totalMatch m of None \<Rightarrow> c_collectedTotal c | Some n \<Rightarrow> max (c_collectedTotal c) n)"
  using assms(1) saved_not_skipped [of m] saved_not_failure [of m] skipped_not_failure [of m]
  unfolding m_def
  by (auto simp: progress_step_def Let_def is_failure_message_def split: option.splits)

lemma progress_loop:
  "c_saved (foldl (progress_step dp t0) c logs)
     = c_saved c + count_prefix ''IMG saved'' (counted_messages dp t0 logs)
   \<and> c_skipped (foldl (progress_step dp t0) c logs)
     = c_skipped c + count_prefix ''IMG skipped_small'' (counted_messages dp t0 logs)
   \<and> c_failed (foldl (progress_step dp t0) c logs)
     = c_failed c + length (filter is_failure_message (counted_messages dp t0 logs))
   \<and> c_collected (foldl (progress_step dp t0) c logs)
     = max (c_collected c) (max_list (List.map_filter scrollMatch (counted_messages dp t0 logs)))
   \<and> c_collectedTotal (foldl (progress_step dp t0) c logs)
     = max (c_collectedTotal c) (max_list (List.map_filter totalMatch (counted_messages dp t0 logs)))"
proof (induction logs arbitrary: c)
  case Nil
  then show ?case by (simp add: counted_messages_def count_prefix_def max_list_def)
next
  case (Cons l ls)
  show ?case
  proof (cases "too_old t0 (parseLogLine dp l)")
    case True
    then have "counted_messages dp t0 (l # ls) = counted_messages dp t0 ls"
      by (simp add: counted_messages_def)
    with True Cons.IH [of c] show ?thesis by (simp add: progress_step_old)
  next
    case False
    then have cm: "counted_messages dp t0 (l # ls)
                 = message (parseLogLine dp l) # counted_messages dp t0 ls"
      by (simp add: counted_messages_def)
    note st = progress_step_counted [OF False, of c]
    show ?thesis
      unfolding cm foldl_Cons
      using Cons.IH [of "progress_step dp t0 c l"] st
      by (auto simp: count_prefix_def max_list_Cons max.assoc split: option.splits)
  qed
qed

lemma progress_counts:
  "c_saved (foldl (progress_step dp t0) zero_counters logs)
     = count_prefix ''IMG saved'' (counted_messages dp t0 logs)"
  "c_skipped (foldl (progress_step dp t0) zero_counters logs)
     = count_prefix ''IMG skipped_small'' (counted_messages dp t0 logs)"
  "c_failed (foldl (progress_step dp t0) zero_counters logs)
     = length (filter is_failure_message (counted_messages dp t0 logs))"
  "c_collected (foldl (progress_step dp t0) zero_counters logs)
     = max_list (List.map_filter scrollMatch (counted_messages dp t0 logs))"
  "c_collectedTotal (foldl (progress_step dp t0) zero_counters logs)
     = max_list (List.map_filter totalMatch (counted_messages dp t0 logs))"
  using progress_loop [of dp t0 zero_counters logs] by (simp_all add: zero_counters_def)


lemma bp_target:
  "startedAt st = Some t0 \<Longrightarrow> map_option target (buildProgress dp now content st)
     = Some (if loop_target st (loop_counters dp t0 content) > 0
             then Some (loop_target st (loop_counters dp t0 content)) else None)"
  by (auto simp: buildProgress_def Let_def loop_counters_def loop_target_def job_mode_def declared_max_def
        empty_payload_def split: option.split)

lemma bp_percent:
  "startedAt st = Some t0 \<Longrightarrow> map_option percent (buildProgress dp now content st)
     = Some (if loop_target st (loop_counters dp t0 content) > 0
             then Some (min 100 (round (of_nat (c_saved (loop_counters dp t0 content)
                     + c_skipped (loop_counters dp t0 content)
                     + c_failed (loop_counters dp t0 content))
                   / of_int (loop_target st (loop_counters dp t0 content)) * 100 :: rat)))
             else None)"
  by (auto simp: buildProgress_def Let_def loop_counters_def loop_target_def job_mode_def declared_max_def
        empty_payload_def split: option.split)

lemma bp_mode:
  "startedAt st = Some t0 \<Longrightarrow> map_option mode (buildProgress dp now content st) = Some (job_mode st)"
  by (simp add: buildProgress_def Let_def job_mode_def)

lemma bp_eta_site:
  "startedAt st = Some t0 \<Longrightarrow> job_mode st \<noteq> ''pinterest'' \<Longrightarrow>
     map_option etaSec (buildProgress dp now content st) = Some None"
  by (simp add: buildProgress_def Let_def job_mode_def)



text \<open>
  C7, as the specification states it, fails on the code: a collection total replaces the
  declared maximum also when it is lower. With a declared maximum of 80 and the line
  \<^verbatim>\<open>PINTEREST collected_total=5\<close> in the log, the target is 5, where an upward override
  of the declared maximum gives 80.
\<close>

theorem target_overridden_downward:
  "map_option target
     (buildProgress sample_date_parse 1767225620000 (Some total_log) (pinterest_job 80)) = Some (Some 5)
   \<and> List.map_filter totalMatch
        (counted_messages sample_date_parse 1767225600000 (readTail (Some total_log) 4000)) = [5]
   \<and> declared_max (pinterest_job 80) = 80
   \<and> spec_target 80 [5] = 80"
  by code_simp

text \<open>
  C7, amended. In the scroll-discovery mode the target is the largest collection total
  among the lines read, when that is positive, whether it is above or below the declared
  maximum; failing that, the larger of the declared maximum and the largest count of a
  scroll line, when one is positive; failing that, the declared maximum; and the target
  is reported only when positive. In any other mode target, percent and ETA are null.
\<close>

theorem progress_target:
  assumes "buildProgress dp now content st = Some p" and "startedAt st = Some t0"
  shows "(mode p = ''pinterest'' \<longrightarrow>
            target p =
              (let total = max_list (List.map_filter totalMatch (counted_messages dp t0 (readTail content 4000)));
                   seen = max_list (List.map_filter scrollMatch (counted_messages dp t0 (readTail content 4000)));
                   t = (if total > 0 then int total
                        else if seen > 0 then max (declared_max st) (int seen)
                        else declared_max st)
               in if t > 0 then Some t else None))
       \<and> (mode p \<noteq> ''pinterest'' \<longrightarrow> target p = None \<and> percent p = None \<and> etaSec p = None)"
proof -
  let ?c = "loop_counters dp t0 content"
  have md: "mode p = job_mode st"
    using bp_mode [OF assms(2), of dp now content] assms(1) by simp
  have tg: "target p = (if loop_target st ?c > 0 then Some (loop_target st ?c) else None)"
    using bp_target [OF assms(2), of dp now content] assms(1) by simp
  have pc: "loop_target st ?c \<le> 0 \<Longrightarrow> percent p = None"
    using bp_percent [OF assms(2), of dp now content] assms(1) by simp
  have ct: "c_collectedTotal ?c = max_list (List.map_filter totalMatch (counted_messages dp t0 (readTail content 4000)))"
    and cc: "c_collected ?c = max_list (List.map_filter scrollMatch (counted_messages dp t0 (readTail content 4000)))"
    by (simp_all add: loop_counters_def progress_counts)
  have a: "target p =
              (let total = max_list (List.map_filter totalMatch (counted_messages dp t0 (readTail content 4000)));
                   seen = max_list (List.map_filter scrollMatch (counted_messages dp t0 (readTail content 4000)));
                   t = (if total > 0 then int total
                        else if seen > 0 then max (declared_max st) (int seen)
                        else declared_max st)
               in if t > 0 then Some t else None)"
    if pin: "mode p = ''pinterest''"
  proof -
    have lt: "loop_target st ?c =
        (if max_list (List.map_filter totalMatch (counted_messages dp t0 (readTail content 4000))) > 0
         then int (max_list (List.map_filter totalMatch (counted_messages dp t0 (readTail content 4000))))
         else if max_list (List.map_filter scrollMatch (counted_messages dp t0 (readTail content 4000))) > 0
         then max (declared_max st)
                (int (max_list (List.map_filter scrollMatch (counted_messages dp t0 (readTail content 4000)))))
         else declared_max st)"
      using pin md unfolding loop_target_def ct cc by simp
    show ?thesis unfolding Let_def tg lt ..
  qed
  have b: "target p = None \<and> percent p = None \<and> etaSec p = None" if n: "mode p \<noteq> ''pinterest''"
  proof -
    from n md have j: "job_mode st \<noteq> ''pinterest''" by simp
    then have z: "loop_target st ?c = 0" by (simp add: loop_target_def)
    have "etaSec p = None"
      using bp_eta_site [OF assms(2) j, of dp now content] assms(1) by simp
    with z tg pc show ?thesis by simp
  qed
  from a b show ?thesis by blast
qed

theorem progress_target_witness:
  "buildProgress sample_date_parse 1767225620000 (Some total_log) (pinterest_job 80)
     = Some \<lparr>mode = ''pinterest'', processed = 1, saved = 1, skipped = 0, failed = 0,
             collected = 5, target = Some 5, percent = Some 20,
             elapsedSec = Some 20, etaSec = Some 80\<rparr>
   \<and> buildProgress sample_date_parse 1767225620000 (Some total_log) site_job
     = Some \<lparr>mode = ''site'', processed = 1, saved = 1, skipped = 0, failed = 0,
             collected = 5, target = None, percent = None,
             elapsedSec = Some 20, etaSec = None\<rparr>
   \<and> startedAt (pinterest_job 80) = Some 1767225600000
   \<and> startedAt site_job = Some 1767225600000
   \<and> max_list (List.map_filter totalMatch
        (counted_messages sample_date_parse 1767225600000 (readTail (Some total_log) 4000))) = 5"
proof -
  have h1: "buildProgress sample_date_parse 1767225620000 (Some total_log) (pinterest_job 80)
     = Some \<lparr>mode = ''pinterest'', processed = 1, saved = 1, skipped = 0, failed = 0,
             collected = 5, target = Some 5, percent = Some 20,
             elapsedSec = Some 20, etaSec = Some 80\<rparr>"
    by code_simp
  have h2: "buildProgress sample_date_parse 1767225620000 (Some total_log) site_job
     = Some \<lparr>mode = ''site'', processed = 1, saved = 1, skipped = 0, failed = 0,
             collected = 5, target = None, percent = None,
             elapsedSec = Some 20, etaSec = None\<rparr>"
    by code_simp
  have s1: "startedAt (pinterest_job 80) = Some 1767225600000" by (simp add: pinterest_job_def)
  have s2: "startedAt site_job = Some 1767225600000" by (simp add: site_job_def)
  have m: "max_list (List.map_filter totalMatch
        (counted_messages sample_date_parse 1767225600000 (readTail (Some total_log) 4000))) = 5"
    by code_simp
  note t1 = progress_target [OF h1 s1]
  note t2 = progress_target [OF h2 s2]
  from h1 h2 s1 s2 m t1 t2 show ?thesis by simp
qed

section \<open>Properties of image ingestion\<close>


lemma distinct_new_Set_aux: "distinct s \<Longrightarrow> distinct (foldl set_add s xs)"
  by (induction xs arbitrary: s) (auto simp: set_add_def)


lemma distinct_new_Set: "distinct (new_Set xs)"
  by (simp add: new_Set_def distinct_new_Set_aux)


lemma save_image_frame:
  assumes "save_image e dir q st u img sz = (r, st')"
  shows "framed st r st' \<and> requests st' = requests st"
proof (cases "recompressImage e (buffer img) (img_type sz) q")
  case (Inl err)
  with assms show ?thesis
    by (auto simp: save_image_def Let_def framed_def outcomes_def)
next
  case (Inr p)
  obtain out rec where p: "p = (out, rec)" by (cases p)
  show ?thesis
  proof (cases "filenameFromUrl e u (img_type sz) (contentType img) (width sz) (height sz)")
    case (Inl err)
    with assms Inr p show ?thesis
      by (auto simp: save_image_def Let_def framed_def outcomes_def)
  next
    case fn: (Inr filename)
    show ?thesis
    proof (cases "write_error e (path_join [dir, filename])")
      case (Some err)
      with assms Inr p fn show ?thesis
        by (auto simp: save_image_def Let_def framed_def outcomes_def)
    next
      case None
      with assms Inr p fn show ?thesis
        by (auto simp: save_image_def Let_def framed_def outcomes_def append_log_def count_saved_def)
    qed
  qed
qed

lemma try_candidate_frame:
  assumes "try_candidate e dir mw q st u = (r, st')"
  shows "framed st r st' \<and> requests st' = requests st @ [u]"
proof (cases "fetchImage e u")
  case (Inl err)
  with assms show ?thesis
    by (auto simp: try_candidate_def Let_def framed_def outcomes_def)
next
  case (Inr res)
  show ?thesis
  proof (cases res)
    case None
    with assms Inr show ?thesis
      by (auto simp: try_candidate_def Let_def framed_def outcomes_def append_log_def count_failed_def)
  next
    case (Some img)
    show ?thesis
    proof (cases "imageSize e (buffer img)")
      case (Inl err)
      with assms Inr Some show ?thesis
        by (auto simp: try_candidate_def Let_def framed_def outcomes_def)
    next
      case sz: (Inr sz)
      show ?thesis
      proof (cases "too_small sz mw")
        case True
        with assms Inr Some sz show ?thesis
          by (auto simp: try_candidate_def Let_def framed_def outcomes_def append_log_def count_skipped_def)
      next
        case False
        with assms Inr Some sz
        have "save_image e dir q (st\<lparr>requests := requests st @ [u]\<rparr>) u img sz = (r, st')"
          by (simp add: try_candidate_def Let_def)
        from save_image_frame [OF this] show ?thesis
          by (simp add: framed_def outcomes_def)
      qed
    qed
  qed
qed

lemma process_candidate_seen:
  "u \<in> set (downloadedImages st) \<Longrightarrow> process_candidate e dir mw q st u = st"
  by (simp add: process_candidate_def)

lemma process_candidate_new:
  assumes "u \<notin> set (downloadedImages st)"
  shows "downloadedImages (process_candidate e dir mw q st u) = downloadedImages st @ [u]"
    and "requests (process_candidate e dir mw q st u) = requests st @ [u]"
    and "outcomes (process_candidate e dir mw q st u) = outcomes st + 1"
proof -
  let ?st1 = "st\<lparr>downloadedImages := set_add (downloadedImages st) u\<rparr>"
  obtain r st2 where t: "try_candidate e dir mw q ?st1 u = (r, st2)" by fastforce
  note f = try_candidate_frame [OF t]
  have d1: "downloadedImages ?st1 = downloadedImages st @ [u]"
    using assms by (simp add: set_add_def)
  have o1: "outcomes ?st1 = outcomes st" by (simp add: outcomes_def)
  have p: "process_candidate e dir mw q st u =
        (case r of None \<Rightarrow> st2
         | Some err \<Rightarrow> append_log (''IMG error url='' @ u @ '' err='' @ err) (count_failed st2))"
    using assms t by (simp add: process_candidate_def Let_def)
  show "downloadedImages (process_candidate e dir mw q st u) = downloadedImages st @ [u]"
    using f d1 unfolding p by (cases r) (simp_all add: framed_def append_log_def count_failed_def)
  show "requests (process_candidate e dir mw q st u) = requests st @ [u]"
    using f unfolding p by (cases r) (simp_all add: framed_def append_log_def count_failed_def)
  show "outcomes (process_candidate e dir mw q st u) = outcomes st + 1"
    using f o1 unfolding p
    by (cases r) (simp_all add: framed_def append_log_def count_failed_def outcomes_def)
qed


lemma process_candidate_downloaded:
  "downloadedImages (process_candidate e dir mw q st u) = set_add (downloadedImages st) u"
proof (cases "u \<in> set (downloadedImages st)")
  case True
  then show ?thesis by (simp add: process_candidate_seen set_add_def)
next
  case False
  with process_candidate_new(1) [OF False, of e dir mw q] show ?thesis by (simp add: set_add_def)
qed





lemma save_image_written:
  "written (snd (save_image e dir q st u img sz))
     = written st @ written (snd (save_image e dir q (initial_ingest 0) u img sz))"
proof (cases "recompressImage e (buffer img) (img_type sz) q")
  case (Inl err)
  then show ?thesis by (simp add: save_image_def Let_def initial_ingest_def)
next
  case (Inr p)
  obtain out rec where p: "p = (out, rec)" by (cases p)
  show ?thesis
  proof (cases "filenameFromUrl e u (img_type sz) (contentType img) (width sz) (height sz)")
    case (Inl err)
    with Inr p show ?thesis by (simp add: save_image_def Let_def initial_ingest_def)
  next
    case fn: (Inr filename)
    show ?thesis
    proof (cases "write_error e (path_join [dir, filename])")
      case (Some err)
      with Inr p fn show ?thesis by (simp add: save_image_def Let_def initial_ingest_def)
    next
      case None
      with Inr p fn show ?thesis
        by (simp add: save_image_def Let_def initial_ingest_def append_log_def count_saved_def)
    qed
  qed
qed

lemma try_candidate_written:
  "written (snd (try_candidate e dir mw q st u))
     = written st @ written (snd (try_candidate e dir mw q (initial_ingest 0) u))"
proof (cases "fetchImage e u")
  case (Inl err)
  then show ?thesis by (simp add: try_candidate_def Let_def initial_ingest_def)
next
  case (Inr res)
  show ?thesis
  proof (cases res)
    case None
    with Inr show ?thesis
      by (simp add: try_candidate_def Let_def initial_ingest_def append_log_def count_failed_def)
  next
    case (Some img)
    show ?thesis
    proof (cases "imageSize e (buffer img)")
      case (Inl err)
      with Inr Some show ?thesis by (simp add: try_candidate_def Let_def initial_ingest_def)
    next
      case sz: (Inr sz)
      show ?thesis
      proof (cases "too_small sz mw")
        case True
        with Inr Some sz show ?thesis
          by (simp add: try_candidate_def Let_def initial_ingest_def append_log_def count_skipped_def)
      next
        case False
        have "written (snd (save_image e dir q (st\<lparr>requests := requests st @ [u]\<rparr>) u img sz))
                = written st @ written (snd (save_image e dir q (initial_ingest 0) u img sz))"
          using save_image_written [of e dir q "st\<lparr>requests := requests st @ [u]\<rparr>" u img sz] by simp
        moreover have "written (snd (save_image e dir q
                 ((initial_ingest 0)\<lparr>requests := requests (initial_ingest 0) @ [u]\<rparr>) u img sz))
                = written (snd (save_image e dir q (initial_ingest 0) u img sz))"
          using save_image_written [of e dir q
                  "(initial_ingest 0)\<lparr>requests := requests (initial_ingest 0) @ [u]\<rparr>" u img sz]
          by (simp add: initial_ingest_def)
        ultimately show ?thesis
          using False Inr Some sz by (simp add: try_candidate_def Let_def)
      qed
    qed
  qed
qed

lemma process_candidate_written:
  assumes "u \<notin> set (downloadedImages st)"
  shows "written (process_candidate e dir mw q st u) = written st @ new_files e dir mw q u"
proof -
  let ?st1 = "st\<lparr>downloadedImages := set_add (downloadedImages st) u\<rparr>"
  obtain r st2 where t: "try_candidate e dir mw q ?st1 u = (r, st2)" by fastforce
  have w: "written st2 = written st @ new_files e dir mw q u"
    using try_candidate_written [of e dir mw q ?st1 u] t by (simp add: new_files_def)
  have "written (process_candidate e dir mw q st u) = written st2"
    using assms t by (cases r) (simp_all add: process_candidate_def Let_def append_log_def count_failed_def)
  with w show ?thesis by simp
qed

lemma small_candidate_step:
  assumes "fetchImage e u = Inr (Some img)" and "imageSize e (buffer img) = Inr sz"
    and "too_small sz mw" and "u \<notin> set (downloadedImages st)"
  shows "process_candidate e dir mw q st u =
           append_log (''IMG skipped_small url='' @ u @ '' width='' @ nat_to_dec (width_or_0 sz)
                       @ '' minWidth='' @ int_to_dec mw)
             (count_skipped (st\<lparr>downloadedImages := downloadedImages st @ [u],
                                  requests := requests st @ [u]\<rparr>))"
  using assms by (simp add: process_candidate_def try_candidate_def Let_def set_add_def)

lemma small_candidate_no_files:
  assumes "fetchImage e u = Inr (Some img)" and "imageSize e (buffer img) = Inr sz"
    and "too_small sz mw"
  shows "new_files e dir mw q u = []"
  using assms
  by (simp add: new_files_def try_candidate_def Let_def initial_ingest_def append_log_def count_skipped_def)

lemma without_small_loop:
  assumes nf: "new_files e dir mw q u = []"
  shows "written st = written st2 \<Longrightarrow> set (downloadedImages st2) = set (downloadedImages st) - {u} \<Longrightarrow>
         written (foldl (process_candidate e dir mw q) st us)
           = written (foldl (process_candidate e dir mw q) st2 (removeAll u us))"
proof (induction us arbitrary: st st2)
  case Nil
  then show ?case by simp
next
  case (Cons v vs)
  show ?case
  proof (cases "v = u")
    case True
    have w: "written (process_candidate e dir mw q st u) = written st"
      using process_candidate_written [of u st e dir mw q] nf
      by (cases "u \<in> set (downloadedImages st)") (simp_all add: process_candidate_seen)
    have d: "set (downloadedImages (process_candidate e dir mw q st u)) - {u}
               = set (downloadedImages st) - {u}"
      by (auto simp: process_candidate_downloaded set_add_def)
    from Cons.IH [of "process_candidate e dir mw q st u" st2] w d Cons.prems True
    show ?thesis by simp
  next
    case False
    have m: "v \<in> set (downloadedImages st2) \<longleftrightarrow> v \<in> set (downloadedImages st)"
      using Cons.prems(2) False by auto
    have w: "written (process_candidate e dir mw q st v) = written (process_candidate e dir mw q st2 v)"
    proof (cases "v \<in> set (downloadedImages st)")
      case True
      with m Cons.prems(1) show ?thesis by (simp add: process_candidate_seen)
    next
      case nv: False
      with m have "v \<notin> set (downloadedImages st2)" by simp
      from process_candidate_written [OF nv] process_candidate_written [OF this] Cons.prems(1)
      show ?thesis by simp
    qed
    have d: "set (downloadedImages (process_candidate e dir mw q st2 v))
               = set (downloadedImages (process_candidate e dir mw q st v)) - {u}"
      using Cons.prems(2) False by (auto simp: process_candidate_downloaded set_add_def)
    from Cons.IH [OF w d] False show ?thesis by simp
  qed
qed

text \<open>
  C2. Let the fetch of a location return an image whose decoded width is unknown or
  strictly below \<open>minWidth\<close>. Processing it as a new candidate adds one to
  \<^verbatim>\<open>imagesSkippedSmall\<close> and leaves \<^verbatim>\<open>imagesSaved\<close> and \<^verbatim>\<open>imagesFailed\<close> alone; processing
  it writes no file; and a whole run writes exactly the files it writes when that
  location is taken out of its input.
\<close>

theorem small_images_never_written:
  assumes "fetchImage e u = Inr (Some img)" and "imageSize e (buffer img) = Inr sz"
    and "case width sz of None \<Rightarrow> True | Some w \<Rightarrow> int w < mw"
  shows "(u \<notin> set (downloadedImages st) \<longrightarrow>
            imagesSkippedSmall (counts (process_candidate e dir mw q st u))
              = imagesSkippedSmall (counts st) + 1
            \<and> imagesSaved (counts (process_candidate e dir mw q st u)) = imagesSaved (counts st)
            \<and> imagesFailed (counts (process_candidate e dir mw q st u)) = imagesFailed (counts st))
       \<and> written (process_candidate e dir mw q st u) = written st
       \<and> written (downloadImages e dir mw q us) = written (downloadImages e dir mw q (removeAll u us))"
proof -
  have small: "too_small sz mw"
    using assms(3) by (cases "width sz") (simp_all add: too_small_def width_or_0_def)
  have nf: "new_files e dir mw q u = []"
    using small_candidate_no_files [OF assms(1,2) small] .
  have a: "u \<notin> set (downloadedImages st) \<longrightarrow>
            imagesSkippedSmall (counts (process_candidate e dir mw q st u))
              = imagesSkippedSmall (counts st) + 1
            \<and> imagesSaved (counts (process_candidate e dir mw q st u)) = imagesSaved (counts st)
            \<and> imagesFailed (counts (process_candidate e dir mw q st u)) = imagesFailed (counts st)"
    using small_candidate_step [OF assms(1,2) small, of st dir q]
    by (simp add: append_log_def count_skipped_def)
  have b: "written (process_candidate e dir mw q st u) = written st"
    using process_candidate_written [of u st e dir mw q] nf
    by (cases "u \<in> set (downloadedImages st)") (simp_all add: process_candidate_seen)
  have c: "written (downloadImages e dir mw q us) = written (downloadImages e dir mw q (removeAll u us))"
    unfolding downloadImages_def
    by (rule without_small_loop [OF nf]) (simp_all add: initial_ingest_def)
  from a b c show ?thesis by blast
qed

theorem small_images_never_written_witness:
  "fetchImage sample_env icon_url = Inr (Some \<lparr>contentType = ''image/png'', buffer = ''PNG-ICON''\<rparr>)
   \<and> imageSize sample_env ''PNG-ICON'' = Inr \<lparr>width = Some 50, height = Some 50, img_type = Some ''png''\<rparr>
   \<and> int 50 < 200
   \<and> icon_url \<notin> set (downloadedImages (initial_ingest 1))
   \<and> imagesSkippedSmall (counts (process_candidate sample_env ''/app/data/site/images'' 200 (Some 75)
         (initial_ingest 1) icon_url)) = 1
   \<and> written (process_candidate sample_env ''/app/data/site/images'' 200 (Some 75)
         (initial_ingest 1) icon_url) = []
   \<and> written (downloadImages sample_env ''/app/data/site/images'' 200 (Some 75) sample_urls)
       = written (downloadImages sample_env ''/app/data/site/images'' 200 (Some 75)
           (removeAll icon_url sample_urls))"
proof -
  have h1: "fetchImage sample_env icon_url
              = Inr (Some \<lparr>contentType = ''image/png'', buffer = ''PNG-ICON''\<rparr>)"
    by code_simp
  have h2: "imageSize sample_env (buffer \<lparr>contentType = ''image/png'', buffer = ''PNG-ICON''\<rparr>)
              = Inr \<lparr>width = Some 50, height = Some 50, img_type = Some ''png''\<rparr>"
    by code_simp
  have h3: "case width \<lparr>width = Some 50, height = Some 50, img_type = Some ''png''\<rparr> of
              None \<Rightarrow> True | Some w \<Rightarrow> int w < 200"
    by simp
  have h4: "icon_url \<notin> set (downloadedImages (initial_ingest 1))"
    by (simp add: initial_ingest_def)
  note t = small_images_never_written [OF h1 h2 h3, of "initial_ingest 1" "''/app/data/site/images''"
             "Some 75" sample_urls]
  have z: "imagesSkippedSmall (counts (initial_ingest 1)) = 0" "written (initial_ingest 1) = []"
    by (simp_all add: initial_ingest_def)
  from h1 h2 h4 t z show ?thesis by simp
qed




section \<open>Properties of scroll collection\<close>

lemma length_set_add: "length (set_add s x) \<le> Suc (length s)" "length s \<le> length (set_add s x)"
  by (simp_all add: set_add_def)

lemma foldl_set_add_prefix: "\<exists>t. foldl set_add s xs = s @ t"
proof (induction xs arbitrary: s)
  case Nil
  then show ?case by simp
next
  case (Cons x xs)
  obtain t where t: "foldl set_add (set_add s x) xs = set_add s x @ t" using Cons.IH by blast
  show ?case
  proof (cases "x \<in> set s")
    case True
    then have "set_add s x = s" by (simp add: set_add_def)
    with t show ?thesis by simp
  next
    case False
    then have "set_add s x = s @ [x]" by (simp add: set_add_def)
    with t show ?thesis by simp
  qed
qed

lemma take_foldl_set_add: "length s = n \<Longrightarrow> take n (foldl set_add s xs) = s"
  using foldl_set_add_prefix [of s xs] by auto

lemma add_batch_take:
  "length fnd < mi \<Longrightarrow>
     add_batch e mi fnd us = take mi (foldl set_add fnd (List.map_filter (normalizePinterestImageUrl e) us))"
proof (induction us arbitrary: fnd)
  case Nil
  then show ?case by simp
next
  case (Cons raw rest)
  show ?case
  proof (cases "normalizePinterestImageUrl e raw")
    case None
    with Cons show ?thesis by simp
  next
    case (Some n)
    show ?thesis
    proof (cases "length (set_add fnd n) \<ge> mi")
      case True
      with Cons.prems length_set_add(1) [of fnd n] have "length (set_add fnd n) = mi" by simp
      from take_foldl_set_add [OF this] True Some show ?thesis
        by (simp add: Let_def)
    next
      case False
      then have "length (set_add fnd n) < mi" by simp
      from Cons.IH [OF this] False Some show ?thesis
        by (simp add: Let_def)
    qed
  qed
qed

lemma add_batch_bound: "length fnd < mi \<Longrightarrow> length (add_batch e mi fnd us) \<le> mi"
  by (simp add: add_batch_take)

lemma add_batch_distinct: "length fnd < mi \<Longrightarrow> distinct fnd \<Longrightarrow> distinct (add_batch e mi fnd us)"
  by (simp add: add_batch_take distinct_new_Set_aux)

lemma collect_pass_bound:
  "length (found st) < mi \<Longrightarrow> length (found (collect_pass e rendered mi st)) \<le> mi"
  by (simp add: collect_pass_def Let_def add_batch_bound)

lemma collect_pass_scroll: "scroll (collect_pass e rendered mi st) = Suc (scroll st)"
  by (simp add: collect_pass_def Let_def)

lemma collect_loop_exit:
  "\<not> (scroll st < ms \<and> length (found st) < mi) \<Longrightarrow> collect_loop e rendered mi ms st = st"
  by (subst collect_loop.simps) auto

lemma collect_loop_enter:
  "scroll st < ms \<and> length (found st) < mi \<Longrightarrow>
     collect_loop e rendered mi ms st = collect_loop e rendered mi ms (collect_pass e rendered mi st)"
  by (subst collect_loop.simps) auto

lemma collect_loop_bounds:
  "length (found st) \<le> mi \<Longrightarrow> scroll st \<le> ms \<Longrightarrow>
     length (found (collect_loop e rendered mi ms st)) \<le> mi
     \<and> scroll (collect_loop e rendered mi ms st) \<le> ms"
proof (induction e rendered mi ms st rule: collect_loop.induct)
  case (1 e rendered mi ms st)
  show ?case
  proof (cases "scroll st < ms \<and> length (found st) < mi")
    case True
    then have b: "length (found (collect_pass e rendered mi st)) \<le> mi"
      and s: "scroll (collect_pass e rendered mi st) \<le> ms"
      by (simp_all add: collect_pass_bound collect_pass_scroll)
    from "1.IH" [OF True b s] True show ?thesis by (simp add: collect_loop_enter)
  next
    case False
    with "1.prems" show ?thesis by (simp add: collect_loop_exit)
  qed
qed

lemma first_pass_enough:
  assumes "0 < mi" and "0 < ms" and "mi \<le> length (offered e (rendered 0))"
  shows "collect_loop e rendered mi ms initial_collect
           = collect_pass e rendered mi initial_collect"
    and "found (collect_pass e rendered mi initial_collect) = take mi (offered e (rendered 0))"
proof -
  have f: "found (collect_pass e rendered mi initial_collect) = take mi (offered e (rendered 0))"
    using assms(1) add_batch_take [of "[]" mi e "urls (evaluate_batch (rendered 0))"]
    by (simp add: collect_pass_def Let_def initial_collect_def offered_def new_Set_def)
  then have l: "length (found (collect_pass e rendered mi initial_collect)) = mi"
    using assms(3) by simp
  have "collect_loop e rendered mi ms initial_collect
          = collect_loop e rendered mi ms (collect_pass e rendered mi initial_collect)"
    using assms(1,2) by (intro collect_loop_enter) (simp add: initial_collect_def)
  also have "\<dots> = collect_pass e rendered mi initial_collect"
    using l by (intro collect_loop_exit) simp
  finally show "collect_loop e rendered mi ms initial_collect
           = collect_pass e rendered mi initial_collect" .
  show "found (collect_pass e rendered mi initial_collect) = take mi (offered e (rendered 0))"
    by (rule f)
qed

lemma sponsored_is_ad: "sponsored i \<Longrightarrow> inspect_img i = Ad"
  by (simp add: sponsored_def inspect_img_def adKeywords_def)

lemma urls_without_sponsored:
  "urls (evaluate_batch (filter (\<lambda>i. \<not> sponsored i) els)) = urls (evaluate_batch els)"
  by (induction els) (auto simp: evaluate_batch_def sponsored_is_ad)

lemma found_without_sponsored:
  "found st' = found st \<Longrightarrow> scroll st' = scroll st \<Longrightarrow>
     found (collect_loop e (\<lambda>k. filter (\<lambda>i. \<not> sponsored i) (rendered k)) mi ms st')
       = found (collect_loop e rendered mi ms st)"
proof (induction e rendered mi ms st arbitrary: st' rule: collect_loop.induct)
  case (1 e rendered mi ms st)
  let ?r' = "\<lambda>k. filter (\<lambda>i. \<not> sponsored i) (rendered k)"
  show ?case
  proof (cases "scroll st < ms \<and> length (found st) < mi")
    case True
    have f: "found (collect_pass e ?r' mi st') = found (collect_pass e rendered mi st)"
      using "1.prems" by (simp add: collect_pass_def Let_def urls_without_sponsored)
    have s: "scroll (collect_pass e ?r' mi st') = scroll (collect_pass e rendered mi st)"
      using "1.prems" by (simp add: collect_pass_scroll)
    have g: "scroll st' < ms \<and> length (found st') < mi" using True "1.prems" by simp
    from "1.IH" [OF True f s] show ?thesis
      by (simp add: collect_loop_enter [OF True] collect_loop_enter [OF g])
  next
    case False
    then have g: "\<not> (scroll st' < ms \<and> length (found st') < mi)" using "1.prems" by simp
    show ?thesis
      using "1.prems" by (simp add: collect_loop_exit [OF False] collect_loop_exit [OF g])
  qed
qed

text \<open>
  C4. The list of locations \<^verbatim>\<open>collectPinterestImageUrls\<close> returns has at most \<open>maxImages\<close>
  elements and the number of passes is at most \<open>maxScrolls\<close>. A pass entered with fewer
  than \<open>maxImages\<close> locations ends with at most \<open>maxImages\<close>, and the loop makes no further
  pass from a state that has \<open>maxImages\<close> locations. With \<open>maxImages = 5\<close>, a positive
  \<open>maxScrolls\<close> and a first rendering that offers ten distinct normalized locations, the
  loop makes exactly one pass and returns the first five of them. An element whose
  container text contains \<^verbatim>\<open>sponsored\<close>, in any letter case, is counted as an ad, and the
  locations returned are those returned when every such element is taken out of the page.
\<close>

theorem scroll_collector_bounds:
  "length (imageUrls (collectPinterestImageUrls e rendered mi ms)) \<le> mi
   \<and> scrolls (cstats (collectPinterestImageUrls e rendered mi ms)) \<le> ms
   \<and> (length (found st) < mi \<longrightarrow> length (found (collect_pass e rendered mi st)) \<le> mi)
   \<and> (mi \<le> length (found st2) \<longrightarrow> collect_loop e rendered mi ms st2 = st2)
   \<and> (mi = 5 \<and> 0 < ms \<and> length (offered e (rendered 0)) = 10 \<longrightarrow>
         scrolls (cstats (collectPinterestImageUrls e rendered mi ms)) = 1
         \<and> length (imageUrls (collectPinterestImageUrls e rendered mi ms)) = 5
         \<and> distinct (imageUrls (collectPinterestImageUrls e rendered mi ms))
         \<and> imageUrls (collectPinterestImageUrls e rendered mi ms) = take 5 (offered e (rendered 0)))
   \<and> (sponsored i \<longrightarrow> inspect_img i = Ad)
   \<and> imageUrls (collectPinterestImageUrls e (\<lambda>k. filter (\<lambda>i. \<not> sponsored i) (rendered k)) mi ms)
       = imageUrls (collectPinterestImageUrls e rendered mi ms)"
proof -
  let ?r = "collectPinterestImageUrls e rendered mi ms"
  have bounds: "length (found (collect_loop e rendered mi ms initial_collect)) \<le> mi
     \<and> scroll (collect_loop e rendered mi ms initial_collect) \<le> ms"
    by (rule collect_loop_bounds) (simp_all add: initial_collect_def)
  then have a: "length (imageUrls ?r) \<le> mi" and b: "scrolls (cstats ?r) \<le> ms"
    by (simp_all add: collectPinterestImageUrls_def Let_def)
  have c: "length (found st) < mi \<longrightarrow> length (found (collect_pass e rendered mi st)) \<le> mi"
    by (simp add: collect_pass_bound)
  have d: "mi \<le> length (found st2) \<longrightarrow> collect_loop e rendered mi ms st2 = st2"
    by (simp add: collect_loop_exit)
  have s: "scrolls (cstats ?r) = 1 \<and> length (imageUrls ?r) = 5 \<and> distinct (imageUrls ?r)
           \<and> imageUrls ?r = take 5 (offered e (rendered 0))"
    if h: "mi = 5 \<and> 0 < ms \<and> length (offered e (rendered 0)) = 10"
  proof -
    from h have p: "0 < mi" "0 < ms" "mi \<le> length (offered e (rendered 0))" by simp_all
    note fp = first_pass_enough [of mi ms e rendered, OF p]
    have f: "imageUrls ?r = take 5 (offered e (rendered 0))"
      using fp h by (simp add: collectPinterestImageUrls_def Let_def)
    have n: "scrolls (cstats ?r) = 1"
      using fp(1) by (simp add: collectPinterestImageUrls_def Let_def collect_pass_scroll initial_collect_def)
    have dd: "distinct (take 5 (offered e (rendered 0)))"
      by (simp add: offered_def distinct_new_Set)
    from f n dd h show ?thesis by simp
  qed
  have g: "sponsored i \<longrightarrow> inspect_img i = Ad" by (simp add: sponsored_is_ad)
  have w: "imageUrls (collectPinterestImageUrls e (\<lambda>k. filter (\<lambda>i. \<not> sponsored i) (rendered k)) mi ms)
       = imageUrls ?r"
    using found_without_sponsored [of initial_collect initial_collect e rendered mi ms]
    by (simp add: collectPinterestImageUrls_def Let_def)
  from a b c d s g w show ?thesis by blast
qed

theorem scroll_collector_bounds_witness:
  "length (found initial_collect) < 5
   \<and> length (found (collect_pass gallery_env gallery 5 initial_collect)) \<le> 5
   \<and> 5 \<le> length (found (collect_pass gallery_env gallery 5 initial_collect))
   \<and> collect_loop gallery_env gallery 5 50 (collect_pass gallery_env gallery 5 initial_collect)
       = collect_pass gallery_env gallery 5 initial_collect
   \<and> (0::nat) < 50 \<and> length (offered gallery_env (gallery 0)) = 10
   \<and> scrolls (cstats (collectPinterestImageUrls gallery_env gallery 5 50)) = 1
   \<and> length (imageUrls (collectPinterestImageUrls gallery_env gallery 5 50)) = 5
   \<and> distinct (imageUrls (collectPinterestImageUrls gallery_env gallery 5 50))
   \<and> sponsored sponsored_pin \<and> inspect_img sponsored_pin = Ad"
proof -
  have h1: "length (found initial_collect) < 5" by (simp add: initial_collect_def)
  have h2: "5 \<le> length (found (collect_pass gallery_env gallery 5 initial_collect))" by code_simp
  have h3: "length (offered gallery_env (gallery 0)) = 10" by code_simp
  have h4: "sponsored sponsored_pin" by code_simp
  note t = scroll_collector_bounds [of gallery_env gallery 5 50 initial_collect
             "collect_pass gallery_env gallery 5 initial_collect" sponsored_pin]
  have z: "(0::nat) < 50" by simp
  from h1 h2 h3 h4 z t show ?thesis by blast
qed

section \<open>Properties of the site crawl\<close>

lemma origin_hash: "origin (u\<lparr>hash := h\<rparr>) = origin u"
  by (simp add: origin_def host_def)

lemma link_step_good:
  assumes "reparses e" and "link_step e pageUrl so po (Inr s) hr = Inr s'"
    and "\<forall>l\<in>set s. good_link e so po l"
  shows "\<forall>l\<in>set s'. good_link e so po l"
proof (cases "hr = []")
  case True
  with assms show ?thesis by (simp add: link_step_def)
next
  case False
  show ?thesis
  proof (cases "normalizeUrl e hr pageUrl")
    case None
    with assms False show ?thesis by (simp add: link_step_def)
  next
    case (Some full)
    show ?thesis
    proof (cases "url_parse e full")
      case None
      with assms False Some show ?thesis by (simp add: link_step_def)
    next
      case p: (Some parsed)
      have rp: "url_parse e (href (parsed\<lparr>hash := []\<rparr>)) = Some (parsed\<lparr>hash := []\<rparr>)"
        using assms(1) p unfolding reparses_def by blast
      show ?thesis
      proof (cases "protocol parsed \<notin> set [''http:'', ''https:''] \<or> (so \<and> origin parsed \<noteq> po)")
        case True
        then have "s' = s"
          using assms(2) False Some p by (auto simp: link_step_def split: if_splits)
        with assms(3) show ?thesis by simp
      next
        case ok: False
        then have s': "s' = set_add s (href (parsed\<lparr>hash := []\<rparr>))"
          using assms(2) False Some p by (auto simp: link_step_def)
        have "good_link e so po (href (parsed\<lparr>hash := []\<rparr>))"
          using ok rp by (auto simp: good_link_def origin_hash)
        with assms(3) s' show ?thesis by (auto simp: set_add_def)
      qed
    qed
  qed
qed

lemma link_step_Inl: "link_step e pageUrl so po (Inl err) hr = Inl err"
  by (simp add: link_step_def)

lemma foldl_link_step_Inl: "foldl (link_step e pageUrl so po) (Inl err) hs = Inl err"
  by (induction hs) (simp_all add: link_step_Inl)

lemma foldl_link_step_good:
  assumes "reparses e"
  shows "foldl (link_step e pageUrl so po) (Inr s) hs = Inr s' \<Longrightarrow>
         \<forall>l\<in>set s. good_link e so po l \<Longrightarrow> \<forall>l\<in>set s'. good_link e so po l"
proof (induction hs arbitrary: s)
  case Nil
  then show ?case by simp
next
  case (Cons h hs)
  show ?case
  proof (cases "link_step e pageUrl so po (Inr s) h")
    case (Inl err)
    with Cons.prems(1) show ?thesis by (simp add: foldl_link_step_Inl)
  next
    case (Inr t)
    from link_step_good [OF assms Inr Cons.prems(2)] have g: "\<forall>l\<in>set t. good_link e so po l" .
    from Cons.prems(1) Inr have "foldl (link_step e pageUrl so po) (Inr t) hs = Inr s'" by simp
    from Cons.IH [OF this g] show ?thesis .
  qed
qed

lemma extractLinks_good:
  assumes "reparses e" and "extractLinks e pg pageUrl so = Inr links"
  shows "\<exists>pu. url_parse e pageUrl = Some pu \<and> (\<forall>l\<in>set links. good_link e so (origin pu) l)"
proof (cases "url_parse e pageUrl")
  case None
  with assms(2) show ?thesis by (simp add: extractLinks_def)
next
  case (Some pu)
  with assms(2) have "foldl (link_step e pageUrl so (origin pu)) (Inr []) (anchors pg) = Inr links"
    by (simp add: extractLinks_def)
  from foldl_link_step_good [OF assms(1) this] Some show ?thesis by simp
qed

lemma crawl_step_shape:
  assumes "queue st = (cur, depth) # rest"
  shows "(visits (snd (crawl_step e md so st)) = visits st
          \<or> (visits (snd (crawl_step e md so st)) = visits st @ [(cur, depth)] \<and> int depth \<le> md))
       \<and> (queue (snd (crawl_step e md so st)) = rest
          \<or> (\<exists>pg links keep. extractLinks e pg cur so = Inr links \<and> set keep \<subseteq> set links
               \<and> queue (snd (crawl_step e md so st)) = rest @ map (\<lambda>l. (l, depth + 1)) keep))"
proof (cases "cur \<in> set (visitedPages st) \<or> int depth > md")
  case True
  with assms show ?thesis by (auto simp: crawl_step_def Let_def)
next
  case guard: False
  show ?thesis
  proof (cases "fetchHtml e cur")
    case (Inl err)
    with assms guard show ?thesis by (auto simp: crawl_step_def Let_def site_log_def)
  next
    case (Inr html)
    show ?thesis
    proof (cases html)
      case None
      with assms guard Inr show ?thesis by (auto simp: crawl_step_def Let_def site_log_def)
    next
      case (Some h)
      show ?thesis
      proof (cases "h = []")
        case True
        with assms guard Inr Some show ?thesis by (auto simp: crawl_step_def Let_def site_log_def)
      next
        case ne: False
        show ?thesis
        proof (cases "int depth < md")
          case False
          with assms guard Inr Some ne show ?thesis
            by (auto simp: crawl_step_def Let_def site_log_def)
        next
          case deep: True
          show ?thesis
          proof (cases "extractLinks e (cheerio_load e h) cur so")
            case (Inl err)
            with assms guard Inr Some ne deep show ?thesis
              by (auto simp: crawl_step_def Let_def site_log_def)
          next
            case links: (Inr links)
            let ?keep = "filter (\<lambda>l. l \<notin> set (set_add (visitedPages st) cur)) links"
            have q: "queue (snd (crawl_step e md so st)) = rest @ map (\<lambda>l. (l, depth + 1)) ?keep"
              and v: "visits (snd (crawl_step e md so st)) = visits st @ [(cur, depth)]"
              using assms guard Inr Some ne deep links
              by (simp_all add: crawl_step_def Let_def site_log_def)
            have "set ?keep \<subseteq> set links" by auto
            with q v links guard show ?thesis by (intro conjI disjI2 exI [of _ "cheerio_load e h"] exI [of _ links] exI [of _ ?keep]) auto
          qed
        qed
      qed
    qed
  qed
qed

lemma crawl_step_depths:
  assumes "depths_ok md (visits st)"
  shows "depths_ok md (visits (snd (crawl_step e md so st)))"
proof (cases "queue st")
  case Nil
  with assms show ?thesis by (simp add: crawl_step_def)
next
  case (Cons c rest)
  obtain cur depth where c: "c = (cur, depth)" by (cases c)
  from crawl_step_shape [of st cur depth rest e md so] Cons c assms
  show ?thesis by (auto simp: depths_ok_def)
qed

lemma good_link_ok:
  assumes "good_link e so (origin pu) l" and "seed_origin e seed = Some (origin pu) \<or> \<not> so"
  shows "link_ok e so seed l"
  using assms by (auto simp: good_link_def link_ok_def split: option.splits if_splits)

lemma crawl_step_queue:
  assumes "reparses e" and "queue_ok e so seed (queue st)"
  shows "queue_ok e so seed (queue (snd (crawl_step e md so st)))"
proof (cases "queue st")
  case Nil
  with assms show ?thesis by (simp add: crawl_step_def)
next
  case (Cons c rest)
  obtain cur depth where c: "c = (cur, depth)" by (cases c)
  from assms(2) Cons c have rest: "queue_ok e so seed rest"
    and cur: "(cur = seed \<and> depth = 0) \<or> (0 < depth \<and> link_ok e so seed cur)"
    by (simp_all add: queue_ok_def)
  from crawl_step_shape [of st cur depth rest e md so] Cons c
  consider (same) "queue (snd (crawl_step e md so st)) = rest"
    | (more) pg links keep where "extractLinks e pg cur so = Inr links" "set keep \<subseteq> set links"
        "queue (snd (crawl_step e md so st)) = rest @ map (\<lambda>l. (l, depth + 1)) keep"
    by blast
  then show ?thesis
  proof cases
    case same
    with rest show ?thesis by simp
  next
    case more
    from extractLinks_good [OF assms(1) more(1)]
    obtain pu where pu: "url_parse e cur = Some pu" and g: "\<forall>l\<in>set links. good_link e so (origin pu) l"
      by blast
    have so: "seed_origin e seed = Some (origin pu) \<or> \<not> so"
      using cur pu by (auto simp: seed_origin_def link_ok_def split: if_splits)
    have "\<forall>l\<in>set keep. link_ok e so seed l"
      using g more(2) good_link_ok [OF _ so] by blast
    then have "queue_ok e so seed (map (\<lambda>l. (l, depth + 1)) keep)"
      by (simp add: queue_ok_def list_all_iff)
    with rest more(3) show ?thesis by (simp add: queue_ok_def)
  qed
qed

lemma crawl_steps_depths:
  "depths_ok md (visits st) \<Longrightarrow> depths_ok md (visits (snd (crawl_steps e md so n st)))"
proof (induction n arbitrary: st)
  case 0
  then show ?case by simp
next
  case (Suc n)
  obtain r st' where s: "crawl_step e md so st = (r, st')" by fastforce
  from crawl_step_depths [OF Suc.prems, of e so] s have d: "depths_ok md (visits st')" by simp
  show ?case
    using Suc.prems s d Suc.IH [OF d] by (cases r) auto
qed

lemma crawl_steps_queue:
  assumes "reparses e"
  shows "queue_ok e so seed (queue st) \<Longrightarrow> queue_ok e so seed (queue (snd (crawl_steps e md so n st)))"
proof (induction n arbitrary: st)
  case 0
  then show ?case by simp
next
  case (Suc n)
  obtain r st' where s: "crawl_step e md so st = (r, st')" by fastforce
  from crawl_step_queue [OF assms Suc.prems, of md] s have d: "queue_ok e so seed (queue st')" by simp
  show ?case
    using Suc.prems s d Suc.IH [OF d] by (cases r) auto
qed

lemma site_env_reparses: "reparses site_env"
  unfolding reparses_def
proof (intro allI impI)
  fix s u
  assume "url_parse site_env s = Some u"
  then have "(s, u) \<in> set site_table"
    by (simp add: site_env_def map_of_SomeD)
  then have "u \<in> snd ` set site_table" by force
  then consider "u = site_url ''https:'' ''site.example'' ''/'' []"
    | "u = site_url ''https:'' ''site.example'' ''/about'' []"
    | "u = site_url ''https:'' ''site.example'' ''/about'' ''#team''"
    | "u = site_url ''https:'' ''other.example'' ''/x'' []"
    | "u = site_url ''ftp:'' ''site.example'' ''/files'' []"
    | "u = site_url ''https:'' ''site.example'' ''/logo.png'' []"
    by (auto simp: site_table_def)
  then show "url_parse site_env (href (u\<lparr>hash := []\<rparr>)) = Some (u\<lparr>hash := []\<rparr>)"
    by cases (simp_all add: site_env_def site_table_def site_url_def href_def host_def)
qed

lemma link_ok_explicit:
  assumes "link_ok e so seed l"
  shows "\<exists>v. url_parse e l = Some v
            \<and> (protocol v = ''http:'' \<or> protocol v = ''https:'') \<and> hash v = []
            \<and> (so \<longrightarrow> (\<exists>sv. url_parse e seed = Some sv \<and> origin v = origin sv))"
proof -
  from assms obtain v where v: "url_parse e l = Some v"
    and p: "protocol v \<in> set [''http:'', ''https:'']" and h: "hash v = []"
    and o: "so \<Longrightarrow> seed_origin e seed = Some (origin v)"
    by (auto simp: link_ok_def split: option.splits if_splits)
  have "\<exists>sv. url_parse e seed = Some sv \<and> origin v = origin sv" if so
    using o [OF that] by (auto simp: seed_origin_def)
  with v p h show ?thesis by auto
qed

text \<open>
  C3. After any number of passes of the breadth-first loop, every page for which a visit
  was logged has a depth of at most \<open>maxDepth\<close>. If the URL parser returns a parsed URL
  unchanged when handed its serialization without fragment, every entry of the queue
  other than the seed at depth 0 is a link that parses, has the scheme http or https and
  no fragment, and, with \<open>sameOriginOnly\<close> set, has the origin of the seed.
\<close>

theorem crawl_bounded:
  "(\<forall>(u, d) \<in> set (visits (snd (crawl_steps e maxDepth so n (initial_crawl seed)))). int d \<le> maxDepth)
   \<and> (reparses e \<longrightarrow>
        (\<forall>(l, d) \<in> set (queue (snd (crawl_steps e maxDepth so n (initial_crawl seed)))).
           (l = seed \<and> d = 0)
           \<or> (\<exists>v. url_parse e l = Some v
                 \<and> (protocol v = ''http:'' \<or> protocol v = ''https:'') \<and> hash v = []
                 \<and> (so \<longrightarrow> (\<exists>sv. url_parse e seed = Some sv \<and> origin v = origin sv)))))"
proof -
  let ?st = "snd (crawl_steps e maxDepth so n (initial_crawl seed))"
  have "depths_ok maxDepth (visits ?st)"
    by (rule crawl_steps_depths) (simp add: depths_ok_def initial_crawl_def)
  then have a: "\<forall>(u, d) \<in> set (visits ?st). int d \<le> maxDepth"
    by (simp add: depths_ok_def list_all_iff)
  have b: "\<forall>(l, d) \<in> set (queue ?st).
           (l = seed \<and> d = 0)
           \<or> (\<exists>v. url_parse e l = Some v
                 \<and> (protocol v = ''http:'' \<or> protocol v = ''https:'') \<and> hash v = []
                 \<and> (so \<longrightarrow> (\<exists>sv. url_parse e seed = Some sv \<and> origin v = origin sv)))"
    if r: "reparses e"
  proof -
    have "queue_ok e so seed (queue ?st)"
      by (rule crawl_steps_queue [OF r]) (simp add: queue_ok_def initial_crawl_def)
    then have "\<forall>x \<in> set (queue ?st). (fst x = seed \<and> snd x = 0) \<or> link_ok e so seed (fst x)"
      by (auto simp: queue_ok_def list_all_iff)
    then show ?thesis
      using link_ok_explicit [of e so seed] by (simp add: case_prod_beta) blast
  qed
  from a b show ?thesis by blast
qed

theorem crawl_bounded_witness:
  "reparses site_env
   \<and> visits (snd (crawl_steps site_env 1 True 1 (initial_crawl ''https://site.example/'')))
       = [(''https://site.example/'', 0)]
   \<and> queue (snd (crawl_steps site_env 1 True 1 (initial_crawl ''https://site.example/'')))
       = [(''https://site.example/about'', 1)]
   \<and> int 0 \<le> 1
   \<and> (\<exists>v. url_parse site_env ''https://site.example/about'' = Some v
          \<and> (protocol v = ''http:'' \<or> protocol v = ''https:'') \<and> hash v = []
          \<and> (\<exists>sv. url_parse site_env ''https://site.example/'' = Some sv \<and> origin v = origin sv))"
proof -
  have r: "reparses site_env" by (rule site_env_reparses)
  have v: "visits (snd (crawl_steps site_env 1 True 1 (initial_crawl ''https://site.example/'')))
       = [(''https://site.example/'', 0)]"
    by code_simp
  have q: "queue (snd (crawl_steps site_env 1 True 1 (initial_crawl ''https://site.example/'')))
       = [(''https://site.example/about'', 1)]"
    by code_simp
  note t = crawl_bounded [of site_env 1 True 1 "''https://site.example/''"]
  from t r have "\<forall>(l, d) \<in> set (queue (snd (crawl_steps site_env 1 True 1 (initial_crawl ''https://site.example/'')))).
           (l = ''https://site.example/'' \<and> d = 0)
           \<or> (\<exists>v. url_parse site_env l = Some v
                 \<and> (protocol v = ''http:'' \<or> protocol v = ''https:'') \<and> hash v = []
                 \<and> (True \<longrightarrow> (\<exists>sv. url_parse site_env ''https://site.example/'' = Some sv \<and> origin v = origin sv)))"
    by blast
  then have l: "\<exists>v. url_parse site_env ''https://site.example/about'' = Some v
          \<and> (protocol v = ''http:'' \<or> protocol v = ''https:'') \<and> hash v = []
          \<and> (\<exists>sv. url_parse site_env ''https://site.example/'' = Some sv \<and> origin v = origin sv)"
    unfolding q by simp
  from r v q l show ?thesis by simp
qed

end
